theory Spec2Isabelle
  imports Main "HOL-Library.Word"
begin

section \<open>The mux dispatcher (mux/dispatch.c)\<close>

text \<open>
  The dispatcher accepts client connections on a set of listening sockets, forwards each
  request read from a client to one upstream request queue, and writes each response back
  to the client the request came from.  It is driven by four callbacks of a
  single-threaded event loop.  The model keeps the dispatcher record, the store of
  connection records (linked into a doubly-linked list through their \<open>next\<close> and
  \<open>prev\<close> fields) and the pool of in-flight request records.
\<close>

subsection \<open>Data\<close>

text \<open>Pointers and \<open>size_t\<close> are 64-bit words; the null pointer is 0.\<close>

type_synonym addr = "64 word"
type_synonym size_t = "64 word"

text \<open>
  \<open>struct sock_listen\<close>.  A cookie returned by \<open>network_accept\<close> is only ever compared
  with \<open>NULL\<close>, so \<open>accept_cookie\<close> records whether it is non-null.
\<close>

record sock_listen =
  L_s :: int
  accept_cookie :: bool

text \<open>
  \<open>struct sock_active\<close>.  \<open>read_cookie\<close> records whether the cookie is non-null.  The
  back pointer \<open>dstate\<close> always refers to the one dispatcher; reading it needs the record
  to be allocated, which the functions below check.  The reader and writer queues belong
  to other modules and carry no state of this one.
\<close>

record sock_active =
  "next" :: addr
  prev :: addr
  S_s :: int
  read_cookie :: bool
  nrequests :: size_t

text \<open>
  \<open>struct forwardee\<close>.  The packet \<open>P\<close> first holds the request buffer, which was handed
  to the request queue, and after a successful response the response buffer, which was
  handed to the connection's writer.
\<close>

datatype packet = Request | Response

record forwardee =
  conn :: addr
  P :: packet

text \<open>
  \<open>struct dispatch_state\<close>, together with the two stores it points into: the allocated
  connection records and the allocated in-flight request records.  \<open>nsock_listen\<close> is the
  length of \<open>sock_listen\<close>; \<open>failed\<close> is the C flag (0 or 1).
\<close>

record dispatch_state =
  sock_listen :: "sock_listen list"
  sock_active :: addr
  nsock_active :: size_t
  nsock_active_max :: size_t
  failed :: bool
  conns :: "addr \<rightharpoonup> sock_active"
  fwds :: "addr \<rightharpoonup> forwardee"

text \<open>
  What the functions of other modules and of the C library return during one callback.
  \<open>network_accept\<close> says for each listener (by index) whether an accept can be started;
  \<open>malloc_S\<close> and \<open>mpool_forwardee_malloc\<close> are the addresses returned by the two
  allocators (0 when allocation fails); \<open>close_S\<close> gives, for the socket of a connection,
  how often \<open>close\<close> is interrupted (\<open>EINTR\<close>) and whether it then succeeds.  One
  callback calls each of these functions at most once for a given argument: it allocates
  at most one record, starts at most one read, and releases each connection at most once.
\<close>

record env =
  network_accept :: "nat \<Rightarrow> bool"
  malloc_S :: addr
  fcntl_ok :: bool
  netbuf_write_init_ok :: bool
  netbuf_read_init_ok :: bool
  wire_readpacket_ok :: bool
  mpool_forwardee_malloc :: addr
  wire_requestqueue_add_ok :: bool
  wire_writepacket_ok :: bool
  netbuf_write_destroy_ok :: "addr \<Rightarrow> bool"
  close_S :: "addr \<Rightarrow> nat \<times> bool"
  malloc_dstate_ok :: bool
  malloc_listen_ok :: bool

text \<open>
  Undefined behaviour of the C program is a value: a failed \<open>assert\<close>, or an access
  through a pointer to a record that is not allocated (never allocated, or freed).
\<close>

datatype fault = AssertFail | BadPointer

subsection \<open>Arming and cancelling accepts\<close>

text \<open>\<open>accept_stop\<close>: cancel the accept of every listener that has one.\<close>

definition accept_stop :: "dispatch_state \<Rightarrow> dispatch_state" where
  "accept_stop st =
     st\<lparr>sock_listen :=
          map (\<lambda>L. if accept_cookie L then L\<lparr>accept_cookie := False\<rparr> else L)
            (sock_listen st)\<rparr>"

text \<open>
  The second loop of \<open>accept_start\<close>, from listener \<open>i\<close> on: arm each listener in turn
  and stop at the first one for which \<open>network_accept\<close> returns \<open>NULL\<close> (which is stored
  as that listener's cookie).  The result says whether every listener was armed.
\<close>

fun accept_loop :: "env \<Rightarrow> nat \<Rightarrow> sock_listen list \<Rightarrow> bool \<times> sock_listen list" where
  "accept_loop e i [] = (True, [])"
| "accept_loop e i (L # Ls) =
     (if network_accept e i
      then (case accept_loop e (Suc i) Ls of
              (ok, Ls') \<Rightarrow> (ok, L\<lparr>accept_cookie := True\<rparr> # Ls'))
      else (False, L\<lparr>accept_cookie := False\<rparr> # Ls))"

text \<open>
  \<open>accept_start\<close>: fail (\<open>err0\<close>) if some listener is already accepting; otherwise arm
  all of them, and if one cannot be armed cancel those armed so far (\<open>err1\<close>).
\<close>

definition accept_start :: "env \<Rightarrow> dispatch_state \<Rightarrow> int \<times> dispatch_state" where
  "accept_start e st =
     (if list_ex accept_cookie (sock_listen st) then (- 1, st)
      else (case accept_loop e 0 (sock_listen st) of
              (True, Ls) \<Rightarrow> (0, st\<lparr>sock_listen := Ls\<rparr>)
            | (False, Ls) \<Rightarrow> (- 1, accept_stop (st\<lparr>sock_listen := Ls\<rparr>))))"

subsection \<open>Reading requests and dropping connections\<close>

text \<open>\<open>readreq\<close>: assert that no read is in progress and start one.\<close>

definition readreq :: "env \<Rightarrow> addr \<Rightarrow> dispatch_state \<Rightarrow> fault + int \<times> dispatch_state" where
  "readreq e S st =
     (case conns st S of
        None \<Rightarrow> Inl BadPointer
      | Some r \<Rightarrow>
          if read_cookie r then Inl AssertFail
          else if wire_readpacket_ok e
          then Inr (0, st\<lparr>conns := (conns st)(S \<mapsto> r\<lparr>read_cookie := True\<rparr>)\<rparr>)
          else Inr (- 1, st\<lparr>conns := (conns st)(S \<mapsto> r\<lparr>read_cookie := False\<rparr>)\<rparr>))"

text \<open>The assignments \<open>X->next = v\<close> and \<open>X->prev = v\<close> through a pointer \<open>X\<close>.\<close>

definition set_next :: "addr \<Rightarrow> addr \<Rightarrow> dispatch_state \<Rightarrow> fault + dispatch_state" where
  "set_next X v st =
     (case conns st X of
        None \<Rightarrow> Inl BadPointer
      | Some r \<Rightarrow> Inr (st\<lparr>conns := (conns st)(X \<mapsto> r\<lparr>next := v\<rparr>)\<rparr>))"

definition set_prev :: "addr \<Rightarrow> addr \<Rightarrow> dispatch_state \<Rightarrow> fault + dispatch_state" where
  "set_prev X v st =
     (case conns st X of
        None \<Rightarrow> Inl BadPointer
      | Some r \<Rightarrow> Inr (st\<lparr>conns := (conns st)(X \<mapsto> r\<lparr>prev := v\<rparr>)\<rparr>))"

text \<open>
  The loop around \<open>close\<close> in \<open>dropconn\<close>: an interrupted call is repeated; the loop ends
  with the first result that is not \<open>EINTR\<close>.
\<close>

primrec close_retry :: "nat \<Rightarrow> bool \<Rightarrow> bool" where
  "close_retry 0 ok = ok"
| "close_retry (Suc n) ok = close_retry n ok"

text \<open>
  The unlinking in \<open>dropconn\<close> (\<open>r\<close> is the record of \<open>S\<close>): the predecessor's \<open>next\<close>,
  or the head of the list, skips \<open>S\<close>, and so does the successor's \<open>prev\<close>.
\<close>

definition detach :: "sock_active \<Rightarrow> dispatch_state \<Rightarrow> fault + dispatch_state" where
  "detach r st =
     (case (if prev r = 0 then Inr (st\<lparr>sock_active := next r\<rparr>)
            else set_next (prev r) (next r) st) of
        Inl f \<Rightarrow> Inl f
      | Inr st1 \<Rightarrow> if next r \<noteq> 0 then set_prev (next r) (prev r) st1 else Inr st1)"

text \<open>
  \<open>dropconn\<close>: the two assertions; unlink \<open>S\<close> from the list; decrement the number of
  connections and, if it was at the maximum, start accepting again; release the reader,
  the writer and the socket.  Every path after the unlinking frees \<open>S\<close>; the function
  returns \<open>- 1\<close> if \<open>accept_start\<close> fails (\<open>err3\<close>), if \<open>netbuf_write_destroy\<close> fails
  (\<open>err2\<close>) or if \<open>close\<close> fails (\<open>err1\<close>), and 0 otherwise.
\<close>

definition dropconn :: "env \<Rightarrow> addr \<Rightarrow> dispatch_state \<Rightarrow> fault + int \<times> dispatch_state" where
  "dropconn e S st =
     (case conns st S of
        None \<Rightarrow> Inl BadPointer
      | Some r \<Rightarrow>
          if read_cookie r then Inl AssertFail
          else if nrequests r \<noteq> 0 then Inl AssertFail
          else
            (case detach r st of
               Inl f \<Rightarrow> Inl f
             | Inr st2 \<Rightarrow>
                 (case (if nsock_active st2 = nsock_active_max st2
                        then accept_start e (st2\<lparr>nsock_active := nsock_active st2 - 1\<rparr>)
                        else (0, st2\<lparr>nsock_active := nsock_active st2 - 1\<rparr>)) of
                    (rc, st4) \<Rightarrow>
                      Inr (if rc \<noteq> 0 then - 1
                           else if \<not> netbuf_write_destroy_ok e S then - 1
                           else if \<not> close_retry (fst (close_S e S)) (snd (close_S e S))
                           then - 1
                           else 0,
                           st4\<lparr>conns := (conns st4)(S := None)\<rparr>))))"

text \<open>\<open>readreq_cancel\<close>: cancel the read and drop the connection if it owes no response.\<close>

definition readreq_cancel ::
  "env \<Rightarrow> addr \<Rightarrow> dispatch_state \<Rightarrow> fault + int \<times> dispatch_state" where
  "readreq_cancel e S st =
     (case conns st S of
        None \<Rightarrow> Inl BadPointer
      | Some r \<Rightarrow>
          let st1 = st\<lparr>conns := (conns st)(S \<mapsto> r\<lparr>read_cookie := False\<rparr>)\<rparr>
          in if nrequests r = 0
             then (case dropconn e S st1 of
                     Inl f \<Rightarrow> Inl f
                   | Inr (rc, st2) \<Rightarrow> if rc \<noteq> 0 then Inr (- 1, st2) else Inr (0, st2))
             else Inr (0, st1))"

text \<open>\<open>reqdone\<close>: one response less is owed; drop the connection if it is now dead.\<close>

definition reqdone :: "env \<Rightarrow> addr \<Rightarrow> dispatch_state \<Rightarrow> fault + int \<times> dispatch_state" where
  "reqdone e S st =
     (case conns st S of
        None \<Rightarrow> Inl BadPointer
      | Some r \<Rightarrow>
          let r1 = r\<lparr>nrequests := nrequests r - 1\<rparr>;
              st1 = st\<lparr>conns := (conns st)(S \<mapsto> r1)\<rparr>
          in if nrequests r1 = 0 \<and> \<not> read_cookie r1
             then (case dropconn e S st1 of
                     Inl f \<Rightarrow> Inl f
                   | Inr (rc, st2) \<Rightarrow> if rc \<noteq> 0 then Inr (- 1, st2) else Inr (0, st2))
             else Inr (0, st1))"

subsection \<open>The callbacks\<close>

text \<open>
  Adding the connection \<open>S\<close> to the list in \<open>callback_gotconn\<close>: \<open>S\<close> becomes the new
  head, in front of the old one.
\<close>

definition link_head :: "addr \<Rightarrow> dispatch_state \<Rightarrow> fault + dispatch_state" where
  "link_head S st =
     (case set_next S (sock_active st) st of
        Inl f \<Rightarrow> Inl f
      | Inr st1 \<Rightarrow>
          (case (if sock_active st \<noteq> 0 then set_prev (sock_active st) S st1
                 else Inr st1) of
             Inl f \<Rightarrow> Inl f
           | Inr st2 \<Rightarrow> Inr (st2\<lparr>sock_active := S\<rparr>)))"

text \<open>
  \<open>callback_gotconn\<close> for the listener with index \<open>i\<close> and the accepted socket \<open>s\<close>
  (\<open>- 1\<close> if the accept failed).  The labels \<open>err2\<close>, \<open>err3\<close> and \<open>err4\<close> all free \<open>S\<close>;
  a failure of \<open>accept_start\<close> after the connection has been linked leaves it linked.
\<close>

definition callback_gotconn ::
  "env \<Rightarrow> nat \<Rightarrow> int \<Rightarrow> dispatch_state \<Rightarrow> fault + int \<times> dispatch_state" where
  "callback_gotconn e i s st =
     (if \<not> i < length (sock_listen st) then Inl BadPointer
      else
        let st1 = st\<lparr>sock_listen :=
                       (sock_listen st)[i := (sock_listen st ! i)\<lparr>accept_cookie := False\<rparr>]\<rparr>
        in if s = - 1 then Inr (- 1, st1)
           else
             let st2 = accept_stop st1; S = malloc_S e
             in if S = 0 then Inr (- 1, st2)
                else
                  let st3 = st2\<lparr>conns := (conns st2)(S \<mapsto>
                              \<lparr>next = 0, prev = 0, S_s = s, read_cookie = False,
                               nrequests = 0\<rparr>)\<rparr>
                  in if \<not> fcntl_ok e then Inr (- 1, st3\<lparr>conns := (conns st3)(S := None)\<rparr>)
                     else if \<not> netbuf_write_init_ok e
                     then Inr (- 1, st3\<lparr>conns := (conns st3)(S := None)\<rparr>)
                     else if \<not> netbuf_read_init_ok e
                     then Inr (- 1, st3\<lparr>conns := (conns st3)(S := None)\<rparr>)
                     else
                       (case readreq e S st3 of
                          Inl f \<Rightarrow> Inl f
                        | Inr (rc, st4) \<Rightarrow>
                            if rc \<noteq> 0 then Inr (- 1, st4\<lparr>conns := (conns st4)(S := None)\<rparr>)
                            else
                              (case link_head S st4 of
                                 Inl f \<Rightarrow> Inl f
                               | Inr st7 \<Rightarrow>
                                   let st8 = st7\<lparr>nsock_active := nsock_active st7 + 1\<rparr>
                                   in if nsock_active st8 < nsock_active_max st8
                                      then (case accept_start e st8 of
                                              (rc, st9) \<Rightarrow>
                                                if rc \<noteq> 0 then Inr (- 1, st9)
                                                else Inr (0, st9))
                                      else Inr (0, st8))))"

text \<open>
  \<open>callback_gotrequest\<close> for the connection \<open>S\<close>; \<open>pkt\<close> says whether a packet was read
  (the pointer \<open>P\<close> is non-null).
\<close>

definition callback_gotrequest ::
  "env \<Rightarrow> addr \<Rightarrow> bool \<Rightarrow> dispatch_state \<Rightarrow> fault + int \<times> dispatch_state" where
  "callback_gotrequest e S pkt st =
     (case conns st S of
        None \<Rightarrow> Inl BadPointer
      | Some r \<Rightarrow>
          let st1 = st\<lparr>conns := (conns st)(S \<mapsto> r\<lparr>read_cookie := False\<rparr>)\<rparr>
          in if \<not> pkt
             then (if nrequests r = 0
                   then (case dropconn e S st1 of
                           Inl f \<Rightarrow> Inl f
                         | Inr (rc, st2) \<Rightarrow> if rc \<noteq> 0 then Inr (- 1, st2) else Inr (0, st2))
                   else Inr (0, st1))
             else
               let F = mpool_forwardee_malloc e
               in if F = 0 then Inr (- 1, st1)
                  else
                    let st2 = st1\<lparr>fwds := (fwds st1)(F \<mapsto> \<lparr>conn = S, P = Request\<rparr>),
                                   conns := (conns st1)(S \<mapsto>
                                     r\<lparr>read_cookie := False, nrequests := nrequests r + 1\<rparr>)\<rparr>
                    in if \<not> wire_requestqueue_add_ok e
                       then Inr (- 1, st2\<lparr>fwds := (fwds st2)(F := None)\<rparr>)
                       else (case readreq e S st2 of
                               Inl f \<Rightarrow> Inl f
                             | Inr (rc, st3) \<Rightarrow>
                                 if rc \<noteq> 0 then Inr (- 1, st3) else Inr (0, st3)))"

text \<open>
  The loop at the end of the failure path of \<open>callback_gotresponse\<close>: starting from the
  connection \<open>S\<close> it follows the \<open>next\<close> pointers and cancels every read it finds.  On a
  cyclic list it does not return, so the result is optional.
\<close>

partial_function (option) stop_reading ::
  "env \<Rightarrow> addr \<Rightarrow> dispatch_state \<Rightarrow> (fault + int \<times> dispatch_state) option" where
  "stop_reading e S st =
     (if S = 0 then Some (Inr (0, st))
      else
        (case conns st S of
           None \<Rightarrow> Some (Inl BadPointer)
         | Some r \<Rightarrow>
             let S_next = next r
             in if read_cookie r
                then (case readreq_cancel e S st of
                        Inl f \<Rightarrow> Some (Inl f)
                      | Inr (rc, st1) \<Rightarrow>
                          if rc \<noteq> 0 then Some (Inr (- 1, st1))
                          else stop_reading e S_next st1)
                else stop_reading e S_next st))"

declare stop_reading.simps [code]

text \<open>
  \<open>callback_gotresponse\<close> for the in-flight request \<open>F\<close>; \<open>buf\<close> says whether the
  response buffer is non-null.  On the failure path the connection \<open>S\<close> is used again
  after \<open>reqdone\<close>, which may have freed it.
\<close>

definition callback_gotresponse ::
  "env \<Rightarrow> addr \<Rightarrow> bool \<Rightarrow> dispatch_state \<Rightarrow> (fault + int \<times> dispatch_state) option" where
  "callback_gotresponse e F buf st =
     (case fwds st F of
        None \<Rightarrow> Some (Inl BadPointer)
      | Some f \<Rightarrow>
          let S = conn f
          in if \<not> buf
             then
               let st1 = st\<lparr>fwds := (fwds st)(F := None)\<rparr>
               in (case reqdone e S st1 of
                     Inl x \<Rightarrow> Some (Inl x)
                   | Inr (rc, st2) \<Rightarrow>
                       if rc \<noteq> 0 then Some (Inr (- 1, st2))
                       else
                         (case conns st2 S of
                            None \<Rightarrow> Some (Inl BadPointer)
                          | Some r \<Rightarrow>
                              let st3 = accept_stop st2;
                                  st4 = st3\<lparr>failed := True\<rparr>
                              in stop_reading e S st4))
             else
               let st1 = st\<lparr>fwds := (fwds st)(F \<mapsto> f\<lparr>P := Response\<rparr>)\<rparr>
               in (case conns st1 S of
                     None \<Rightarrow> Some (Inl BadPointer)
                   | Some r \<Rightarrow>
                       if \<not> wire_writepacket_ok e
                       then Some (Inr (- 1, st1\<lparr>fwds := (fwds st1)(F := None)\<rparr>))
                       else Some (Inr (0, st1))))"

text \<open>
  \<open>callback_writresponse\<close> for the in-flight request \<open>F\<close>; the argument \<^verbatim>\<open>failed\<close> of
  the C function is \<open>write_failed\<close> here.
\<close>

definition callback_writresponse ::
  "env \<Rightarrow> addr \<Rightarrow> bool \<Rightarrow> dispatch_state \<Rightarrow> fault + int \<times> dispatch_state" where
  "callback_writresponse e F write_failed st =
     (case fwds st F of
        None \<Rightarrow> Inl BadPointer
      | Some f \<Rightarrow>
          let S = conn f;
              st1 = st\<lparr>fwds := (fwds st)(F := None)\<rparr>
          in (case reqdone e S st1 of
                Inl x \<Rightarrow> Inl x
              | Inr (rc, st2) \<Rightarrow> if rc \<noteq> 0 then Inr (- 1, st2) else Inr (0, st2)))"

subsection \<open>The public interface\<close>

text \<open>
  \<open>dispatch_init\<close> for the listening sockets \<open>socks\<close>; \<open>None\<close> is the \<open>NULL\<close> it returns
  on failure.  A new dispatcher has no connection and no in-flight request.
\<close>

definition dispatch_init :: "env \<Rightarrow> int list \<Rightarrow> size_t \<Rightarrow> dispatch_state option" where
  "dispatch_init e socks maxconn =
     (if \<not> malloc_dstate_ok e then None
      else if \<not> malloc_listen_ok e then None
      else
        let st = \<lparr>sock_listen = map (\<lambda>s. \<lparr>L_s = s, accept_cookie = False\<rparr>) socks,
                  sock_active = 0, nsock_active = 0, nsock_active_max = maxconn,
                  failed = False, conns = Map.empty, fwds = Map.empty\<rparr>
        in (case accept_start e st of
              (rc, st1) \<Rightarrow> if rc \<noteq> 0 then None else Some st1))"

definition dispatch_alive :: "dispatch_state \<Rightarrow> bool" where
  "dispatch_alive st = (failed st = False \<or> nsock_active st > 0)"

definition dispatch_done :: "dispatch_state \<Rightarrow> fault + unit" where
  "dispatch_done st =
     (if \<not> failed st then Inl AssertFail
      else if sock_active st \<noteq> 0 then Inl AssertFail
      else if nsock_active st \<noteq> 0 then Inl AssertFail
      else Inr ())"

subsection \<open>The event loop\<close>

text \<open>
  An event is the completion of one asynchronous operation: an accept on listener \<open>i\<close>, a
  packet read on a connection, a response from the request queue, or a packet write.
\<close>

datatype event =
    GotConn nat int
  | GotRequest addr bool
  | GotResponse addr bool
  | WritResponse addr bool

fun callback ::
  "env \<Rightarrow> event \<Rightarrow> dispatch_state \<Rightarrow> (fault + int \<times> dispatch_state) option" where
  "callback e (GotConn i s) st = Some (callback_gotconn e i s st)"
| "callback e (GotRequest S pkt) st = Some (callback_gotrequest e S pkt st)"
| "callback e (GotResponse F buf) st = callback_gotresponse e F buf st"
| "callback e (WritResponse F write_failed) st =
     Some (callback_writresponse e F write_failed st)"

text \<open>
  The event loop calls a callback only for an operation that is in progress: an accept
  whose cookie is held, a read whose cookie is held, a request that is in the request
  queue, a response that is in a connection's write queue.
\<close>

fun pending :: "dispatch_state \<Rightarrow> event \<Rightarrow> bool" where
  "pending st (GotConn i s) =
     (i < length (sock_listen st) \<and> accept_cookie (sock_listen st ! i))"
| "pending st (GotRequest S pkt) =
     (case conns st S of None \<Rightarrow> False | Some r \<Rightarrow> read_cookie r)"
| "pending st (GotResponse F buf) =
     (case fwds st F of None \<Rightarrow> False | Some f \<Rightarrow> P f = Request)"
| "pending st (WritResponse F write_failed) =
     (case fwds st F of None \<Rightarrow> False | Some f \<Rightarrow> P f = Response)"

text \<open>
  The allocators return the null pointer or the address of a record that is not
  allocated at present.
\<close>

definition alloc_fresh :: "env \<Rightarrow> dispatch_state \<Rightarrow> bool" where
  "alloc_fresh e st =
     ((malloc_S e = 0 \<or> conns st (malloc_S e) = None) \<and>
      (mpool_forwardee_malloc e = 0 \<or> fwds st (mpool_forwardee_malloc e) = None))"

text \<open>
  The states of a running dispatcher between callbacks: the state \<open>dispatch_init\<close>
  returns, and the state after a callback that returned 0.  (A callback that returns
  \<open>- 1\<close> makes the event loop fail, and the process exits.)
\<close>

inductive reachable :: "dispatch_state \<Rightarrow> bool" where
  init: "dispatch_init e socks maxconn = Some st \<Longrightarrow> reachable st"
| step: "reachable st \<Longrightarrow> pending st ev \<Longrightarrow> alloc_fresh e st \<Longrightarrow>
         callback e ev st = Some (Inr (0, st')) \<Longrightarrow> reachable st'"

text \<open>
  The callbacks hand their return value to the event loop, which is not part of this
  file.  The states that can be seen between callbacks if the event loop goes on after a
  callback has returned \<open>- 1\<close>: the state \<open>dispatch_init\<close> returns, and the state after a
  callback that returned any value.
\<close>

inductive reachable_any :: "dispatch_state \<Rightarrow> bool" where
  init_any: "dispatch_init e socks maxconn = Some st \<Longrightarrow> reachable_any st"
| step_any: "reachable_any st \<Longrightarrow> pending st ev \<Longrightarrow> alloc_fresh e st \<Longrightarrow>
         callback e ev st = Some (Inr (rc, st')) \<Longrightarrow> reachable_any st'"

subsection \<open>Running a sequence of events\<close>

text \<open>
  An environment in which every call of another module succeeds; the two allocators
  return \<open>a\<close> and \<open>f\<close>.
\<close>

definition all_ok :: "addr \<Rightarrow> addr \<Rightarrow> env" where
  "all_ok a f =
     \<lparr>network_accept = (\<lambda>i. True), malloc_S = a, fcntl_ok = True,
      netbuf_write_init_ok = True, netbuf_read_init_ok = True, wire_readpacket_ok = True,
      mpool_forwardee_malloc = f, wire_requestqueue_add_ok = True,
      wire_writepacket_ok = True, netbuf_write_destroy_ok = (\<lambda>S. True),
      close_S = (\<lambda>S. (0, True)), malloc_dstate_ok = True, malloc_listen_ok = True\<rparr>"

text \<open>
  \<open>run\<close> performs the events of a list in turn, each with its environment, as the event
  loop does: an event must be pending, the allocators must return fresh addresses, and
  the loop goes on only after a callback that returned 0.  \<open>None\<close> means that the list
  is not a possible run (or that a callback does not return).
\<close>

fun run :: "(env \<times> event) list \<Rightarrow> dispatch_state \<Rightarrow> dispatch_state option" where
  "run [] st = Some st"
| "run ((e, ev) # es) st =
     (if pending st ev \<and> alloc_fresh e st
      then (case callback e ev st of
              Some (Inr (rc, st')) \<Rightarrow> if rc = 0 then run es st' else None
            | _ \<Rightarrow> None)
      else None)"

subsection \<open>Example states\<close>

text \<open>
  States of a dispatcher with one listening socket (descriptor 5), written with the
  stores as association lists, and connection records written positionally.
\<close>

definition listen_state :: "bool \<Rightarrow> addr \<Rightarrow> size_t \<Rightarrow> size_t \<Rightarrow> bool \<Rightarrow>
    (addr \<times> sock_active) list \<Rightarrow> (addr \<times> forwardee) list \<Rightarrow> dispatch_state" where
  "listen_state armed h n mx fl cs fs =
     \<lparr>sock_listen = [\<lparr>L_s = 5, accept_cookie = armed\<rparr>], sock_active = h,
      nsock_active = n, nsock_active_max = mx, failed = fl,
      conns = map_of cs, fwds = map_of fs\<rparr>"

definition client :: "addr \<Rightarrow> addr \<Rightarrow> int \<Rightarrow> bool \<Rightarrow> size_t \<Rightarrow> sock_active" where
  "client nx pv s rd n = \<lparr>next = nx, prev = pv, S_s = s, read_cookie = rd, nrequests = n\<rparr>"

text \<open>
  A dispatcher for at most one connection: as initialised; with a connection (at address
  1); with a request of that connection in flight; after the request queue has failed
  that request; and after a further connection (at address 2) has sent a request.
\<close>

definition a_init :: dispatch_state where
  "a_init = listen_state True 0 0 1 False [] []"

definition a_conn :: dispatch_state where
  "a_conn = listen_state False 1 1 1 False [(1, client 0 0 7 True 0)] []"

definition a_req :: dispatch_state where
  "a_req = listen_state False 1 1 1 False [(1, client 0 0 7 True 1)]
             [(1, \<lparr>conn = 1, P = Request\<rparr>)]"

definition a_failed :: dispatch_state where
  "a_failed = listen_state True 0 0 1 True [] []"

definition a_req2 :: dispatch_state where
  "a_req2 = listen_state False 2 1 1 True [(2, client 0 0 8 True 1)]
              [(2, \<lparr>conn = 2, P = Request\<rparr>)]"

text \<open>
  A dispatcher for at most five connections: as initialised; with two connections, the
  one at address 2 accepted after the one at address 1; with a request of the older
  connection in flight; and after the request queue has failed that request.
\<close>

definition b_init :: dispatch_state where
  "b_init = listen_state True 0 0 5 False [] []"

definition b_two :: dispatch_state where
  "b_two = listen_state True 2 2 5 False
             [(1, client 0 2 7 True 0), (2, client 1 0 8 True 0)] []"

definition b_req :: dispatch_state where
  "b_req = listen_state True 2 2 5 False
             [(1, client 0 2 7 True 1), (2, client 1 0 8 True 0)]
             [(1, \<lparr>conn = 1, P = Request\<rparr>)]"

definition b_failed :: dispatch_state where
  "b_failed = listen_state False 2 1 5 True [(2, client 0 0 8 True 0)] []"

text \<open>A dispatcher initialised with \<open>maxconn = 0\<close>, and the same after an accept.\<close>

definition c_init :: dispatch_state where
  "c_init = listen_state True 0 0 0 False [] []"

definition c_conn :: dispatch_state where
  "c_conn = listen_state False 1 1 0 False [(1, client 0 0 7 True 0)] []"

text \<open>
  The dispatcher for at most one connection whose connection has a request in flight and
  has reached the end of its input (no read is in progress); and a state, seen
  only after a callback that returned \<open>- 1\<close>, in which the connection has no read in
  progress and owes no response.
\<close>

definition a_eof :: dispatch_state where
  "a_eof = listen_state False 1 1 1 False [(1, client 0 0 7 False 1)]
             [(1, \<lparr>conn = 1, P = Request\<rparr>)]"

definition idle_conn :: dispatch_state where
  "idle_conn = listen_state False 1 1 1 False [(1, client 0 0 7 False 0)] []"


subsection \<open>Properties of a state\<close>

text \<open>
  \<open>accepts_match\<close>: every listener has an accept in progress exactly if there is room
  for a connection and the request queue has not failed.
\<close>

definition accepts_match :: "dispatch_state \<Rightarrow> bool" where
  "accepts_match st =
     list_all (\<lambda>L. accept_cookie L = (nsock_active st < nsock_active_max st \<and> \<not> failed st))
       (sock_listen st)"

text \<open>
  \<open>in_flight st S\<close> is the number of allocated in-flight request records that refer to
  the connection \<open>S\<close>; \<open>nreq_matches st S\<close> says that the \<open>nrequests\<close> field of \<open>S\<close> is
  that number.
\<close>

definition in_flight :: "dispatch_state \<Rightarrow> addr \<Rightarrow> nat" where
  "in_flight st S = card {F. \<exists>f. fwds st F = Some f \<and> conn f = S}"

definition nreq_matches :: "dispatch_state \<Rightarrow> addr \<Rightarrow> bool" where
  "nreq_matches st S =
     (case conns st S of None \<Rightarrow> True | Some r \<Rightarrow> unat (nrequests r) = in_flight st S)"

text \<open>
  A connection is dead, in the words of the source, when no read is in progress on it and
  it owes no response.
\<close>

definition dead :: "dispatch_state \<Rightarrow> addr \<Rightarrow> bool" where
  "dead st S =
     (case conns st S of None \<Rightarrow> False | Some r \<Rightarrow> \<not> read_cookie r \<and> nrequests r = 0)"

subsection \<open>Properties used in the proofs\<close>

text \<open>
  \<open>dseg h pv p xs q\<close>: following the \<open>next\<close> fields from \<open>p\<close> visits exactly the records
  \<open>xs\<close> and arrives at \<open>q\<close>; the \<open>prev\<close> field of each record points to the record before
  it (\<open>pv\<close> for the first).  \<open>conn_list st xs\<close>: the list of connections of the dispatcher,
  from \<open>sock_active\<close> to the null pointer, is \<open>xs\<close>, and it holds every allocated
  connection record once.
\<close>

primrec dseg ::
  "(addr \<rightharpoonup> sock_active) \<Rightarrow> addr \<Rightarrow> addr \<Rightarrow> addr list \<Rightarrow> addr \<Rightarrow> bool" where
  "dseg h pv p [] q = (p = q)"
| "dseg h pv p (x # xs) q =
     (p = x \<and> x \<noteq> 0 \<and>
      (case h x of None \<Rightarrow> False | Some r \<Rightarrow> prev r = pv \<and> dseg h x (next r) xs q))"

definition conn_list :: "dispatch_state \<Rightarrow> addr list \<Rightarrow> bool" where
  "conn_list st xs =
     (dseg (conns st) 0 (sock_active st) xs 0 \<and> distinct xs \<and> set xs = dom (conns st))"

text \<open>What a function leaves unchanged.\<close>

definition only_listen :: "dispatch_state \<Rightarrow> dispatch_state \<Rightarrow> bool" where
  "only_listen st st' =
     (sock_active st' = sock_active st \<and> nsock_active st' = nsock_active st \<and>
      nsock_active_max st' = nsock_active_max st \<and> failed st' = failed st \<and>
      conns st' = conns st \<and> fwds st' = fwds st \<and>
      length (sock_listen st') = length (sock_listen st))"

definition same_config :: "dispatch_state \<Rightarrow> dispatch_state \<Rightarrow> bool" where
  "same_config st st' =
     (nsock_active_max st' = nsock_active_max st \<and> failed st' = failed st \<and>
      fwds st' = fwds st \<and> length (sock_listen st') = length (sock_listen st))"


text \<open>
  The fields of a connection record other than the list pointers, and two stores that
  agree on them.
\<close>

definition payload :: "sock_active \<Rightarrow> int \<times> bool \<times> size_t" where
  "payload r = (S_s r, read_cookie r, nrequests r)"

definition heap_payload_eq :: "(addr \<rightharpoonup> sock_active) \<Rightarrow> (addr \<rightharpoonup> sock_active) \<Rightarrow> bool" where
  "heap_payload_eq h h' = (\<forall>x. map_option payload (h' x) = map_option payload (h x))"


text \<open>
  The store of connection records seen through \<open>payload\<close>.  The properties of the
  connections that do not concern the list are properties of this map.
\<close>

definition pmap :: "dispatch_state \<Rightarrow> addr \<rightharpoonup> int \<times> bool \<times> size_t" where
  "pmap st = (\<lambda>x. map_option payload (conns st x))"

text \<open>
  \<open>linv\<close>: the connections form a list, and \<open>nsock_active\<close> is its length.
  \<open>all_busy\<close>: every allocated connection has a read in progress or owes a response.
\<close>

definition linv :: "dispatch_state \<Rightarrow> bool" where
  "linv st = (\<exists>xs. conn_list st xs \<and> unat (nsock_active st) = length xs)"

definition all_busy :: "dispatch_state \<Rightarrow> bool" where
  "all_busy st = (\<forall>S r. conns st S = Some r \<longrightarrow> read_cookie r \<or> nrequests r \<noteq> 0)"

definition inv1 :: "dispatch_state \<Rightarrow> bool" where
  "inv1 st = (linv st \<and> all_busy st)"

text \<open>
  What a successful \<open>dropconn\<close> does to the counter and the listeners (\<open>dropped\<close>), and
  what a function that drops no connection does to them (\<open>kept\<close>).
\<close>

definition dropped :: "dispatch_state \<Rightarrow> dispatch_state \<Rightarrow> bool" where
  "dropped st st' =
     (nsock_active st' = nsock_active st - 1 \<and>
      (if nsock_active st = nsock_active_max st
       then list_all accept_cookie (sock_listen st') \<and> \<not> list_ex accept_cookie (sock_listen st)
       else sock_listen st' = sock_listen st))"

definition kept :: "dispatch_state \<Rightarrow> dispatch_state \<Rightarrow> bool" where
  "kept st st' = (nsock_active st' = nsock_active st \<and> sock_listen st' = sock_listen st)"


text \<open>
  \<open>ainv\<close>: there are no more connections than the maximum; an accept is in progress
  only if there is room for a connection; and before the request queue has failed,
  every listener accepts while there is room.  \<open>inv2\<close> states it for a dispatcher
  whose maximum is not 0.
\<close>

definition ainv :: "dispatch_state \<Rightarrow> bool" where
  "ainv st =
     (nsock_active st \<le> nsock_active_max st \<and>
      (list_ex accept_cookie (sock_listen st) \<longrightarrow> nsock_active st < nsock_active_max st) \<and>
      (\<not> failed st \<longrightarrow> nsock_active st < nsock_active_max st \<longrightarrow>
         list_all accept_cookie (sock_listen st)))"

definition inv2 :: "dispatch_state \<Rightarrow> bool" where
  "inv2 st = (linv st \<and> (nsock_active_max st \<noteq> 0 \<longrightarrow> ainv st))"

text \<open>
  \<open>finv\<close>: no in-flight request record is at the null address; every in-flight request
  record refers to an allocated connection; and the \<open>nrequests\<close> field of every
  connection is the number of in-flight request records that refer to it.
\<close>

definition finv :: "dispatch_state \<Rightarrow> bool" where
  "finv st =
     (fwds st 0 = None \<and>
      (\<forall>F f. fwds st F = Some f \<longrightarrow> pmap st (conn f) \<noteq> None) \<and>
      (\<forall>S s rd n. pmap st S = Some (s, rd, n) \<longrightarrow> unat n = in_flight st S))"

definition inv3 :: "dispatch_state \<Rightarrow> bool" where
  "inv3 st = (linv st \<and> finv st)"

section \<open>Proofs\<close>

subsection \<open>What the functions leave unchanged\<close>

lemma only_listen_refl [simp]: "only_listen st st"
  by (simp add: only_listen_def)

lemma same_config_refl [simp]: "same_config st st"
  by (simp add: same_config_def)

lemma same_config_trans: "same_config st st1 \<Longrightarrow> same_config st1 st2 \<Longrightarrow> same_config st st2"
  by (simp add: same_config_def)

lemma only_listen_config: "only_listen st st' \<Longrightarrow> same_config st st'"
  by (simp add: only_listen_def same_config_def)

lemma accept_stop_only_listen: "only_listen st (accept_stop st)"
  by (simp add: accept_stop_def only_listen_def)

lemma accept_loop_length: "accept_loop e i Ls = (ok, Ls') \<Longrightarrow> length Ls' = length Ls"
  by (induction Ls arbitrary: i ok Ls') (auto split: if_splits prod.splits)

lemma accept_start_only_listen:
  assumes "accept_start e st = (rc, st')"
  shows "only_listen st st'"
proof (cases "list_ex accept_cookie (sock_listen st)")
  case True
  with assms show ?thesis by (simp add: accept_start_def)
next
  case False
  obtain ok Ls where l: "accept_loop e 0 (sock_listen st) = (ok, Ls)" by fastforce
  then have len: "length Ls = length (sock_listen st)" by (rule accept_loop_length)
  show ?thesis
  proof (cases ok)
    case True
    with assms False l len show ?thesis by (auto simp: accept_start_def only_listen_def)
  next
    case f: False
    with assms False l len show ?thesis
      by (auto simp: accept_start_def only_listen_def accept_stop_def)
  qed
qed

lemma set_next_config: "set_next X v st = Inr st' \<Longrightarrow> same_config st st'"
  by (auto simp: set_next_def same_config_def split: option.splits)

lemma set_prev_config: "set_prev X v st = Inr st' \<Longrightarrow> same_config st st'"
  by (auto simp: set_prev_def same_config_def split: option.splits)

lemma detach_config:
  assumes "detach r st = Inr st'"
  shows "same_config st st' \<and> sock_listen st' = sock_listen st \<and> nsock_active st' = nsock_active st"
proof -
  from assms obtain st1 where
    1: "(if prev r = 0 then Inr (st\<lparr>sock_active := next r\<rparr>)
         else set_next (prev r) (next r) st) = Inr st1"
    and 2: "(if next r \<noteq> 0 then set_prev (next r) (prev r) st1 else Inr st1) = Inr st'"
    by (auto simp: detach_def split: sum.splits)
  from 1 have "same_config st st1 \<and> sock_listen st1 = sock_listen st \<and> nsock_active st1 = nsock_active st"
    by (auto simp: same_config_def set_next_def split: if_splits option.splits)
  moreover from 2 have "same_config st1 st' \<and> sock_listen st' = sock_listen st1 \<and> nsock_active st' = nsock_active st1"
    by (auto simp: same_config_def set_prev_def split: if_splits option.splits)
  ultimately show ?thesis by (simp add: same_config_def)
qed

lemma dropconn_Inr:
  assumes "dropconn e S st = Inr (rc, st')"
  obtains r st2 rc1 st4 where "conns st S = Some r" "\<not> read_cookie r" "nrequests r = 0"
    "detach r st = Inr st2"
    "(if nsock_active st2 = nsock_active_max st2
      then accept_start e (st2\<lparr>nsock_active := nsock_active st2 - 1\<rparr>)
      else (0, st2\<lparr>nsock_active := nsock_active st2 - 1\<rparr>)) = (rc1, st4)"
    "st' = st4\<lparr>conns := (conns st4)(S := None)\<rparr>"
proof -
  from assms obtain r where r: "conns st S = Some r" by (auto simp: dropconn_def split: option.splits)
  with assms have a: "\<not> read_cookie r" "nrequests r = 0"
    by (auto simp: dropconn_def split: if_splits)
  with assms r obtain st2 where d: "detach r st = Inr st2"
    by (cases "detach r st") (auto simp: dropconn_def)
  obtain rc1 st4 where c: "(if nsock_active st2 = nsock_active_max st2
      then accept_start e (st2\<lparr>nsock_active := nsock_active st2 - 1\<rparr>)
      else (0, st2\<lparr>nsock_active := nsock_active st2 - 1\<rparr>)) = (rc1, st4)"
    by fastforce
  from assms r a d c have "st' = st4\<lparr>conns := (conns st4)(S := None)\<rparr>"
    by (simp add: dropconn_def)
  with r a d c show ?thesis using that by blast
qed

lemma dropconn_config:
  assumes "dropconn e S st = Inr (rc, st')"
  shows "same_config st st' \<and> nsock_active st' = nsock_active st - 1"
proof -
  from assms obtain r st2 rc1 st4 where
    d: "detach r st = Inr st2"
    and c: "(if nsock_active st2 = nsock_active_max st2
      then accept_start e (st2\<lparr>nsock_active := nsock_active st2 - 1\<rparr>)
      else (0, st2\<lparr>nsock_active := nsock_active st2 - 1\<rparr>)) = (rc1, st4)"
    and f: "st' = st4\<lparr>conns := (conns st4)(S := None)\<rparr>"
    by (rule dropconn_Inr)
  have "only_listen (st2\<lparr>nsock_active := nsock_active st2 - 1\<rparr>) st4"
    using c accept_start_only_listen by (auto split: if_splits)
  with detach_config[OF d] f show ?thesis
    by (simp add: same_config_def only_listen_def)
qed

lemma reqdone_config:
  assumes "reqdone e S st = Inr (rc, st')"
  shows "same_config st st'"
proof -
  from assms obtain r where r: "conns st S = Some r"
    by (auto simp: reqdone_def split: option.splits)
  define st1 where "st1 = st\<lparr>conns := (conns st)(S \<mapsto> r\<lparr>nrequests := nrequests r - 1\<rparr>)\<rparr>"
  have c1: "same_config st st1" by (simp add: st1_def same_config_def)
  show ?thesis
  proof (cases "nrequests r - 1 = 0 \<and> \<not> read_cookie r")
    case True
    with assms r obtain rc2 where "dropconn e S st1 = Inr (rc2, st')"
      by (auto simp: reqdone_def st1_def Let_def split: sum.splits if_splits)
    from dropconn_config[OF this] c1 show ?thesis by (auto intro: same_config_trans)
  next
    case False
    with assms r have "st' = st1" by (auto simp: reqdone_def st1_def Let_def)
    with c1 show ?thesis by simp
  qed
qed


subsection \<open>The list of connections\<close>

lemma dseg_append:
  "dseg h pv p (xs @ ys) q = (\<exists>m. dseg h pv p xs m \<and> dseg h (last (pv # xs)) m ys q)"
  by (induction xs arbitrary: pv p) (auto split: option.splits)

lemma dseg_upd_notin:
  "a \<notin> set xs \<Longrightarrow> dseg (h(a := v)) pv p xs q = dseg h pv p xs q"
  by (induction xs arbitrary: pv p) (auto split: option.splits)

lemma dseg_nonzero: "dseg h pv p xs q \<Longrightarrow> 0 \<notin> set xs"
  by (induction xs arbitrary: pv p) (auto split: option.splits)

lemma dseg_cong:
  "(\<And>x. x \<in> set xs \<Longrightarrow> map_option (\<lambda>r. (next r, prev r)) (h' x) = map_option (\<lambda>r. (next r, prev r)) (h x))
   \<Longrightarrow> dseg h' pv p xs q = dseg h pv p xs q"
proof (induction xs arbitrary: pv p)
  case Nil
  then show ?case by simp
next
  case (Cons x xs)
  have "map_option (\<lambda>r. (next r, prev r)) (h' x) = map_option (\<lambda>r. (next r, prev r)) (h x)"
    using Cons.prems by simp
  moreover have "\<And>pv p. dseg h' pv p xs q = dseg h pv p xs q"
    using Cons by simp
  ultimately show ?case
    by (cases "h x"; cases "h' x") auto
qed

lemma dseg_set_last_next:
  "dseg h pv p ys q \<Longrightarrow> ys \<noteq> [] \<Longrightarrow> distinct ys \<Longrightarrow> h (last ys) = Some r \<Longrightarrow>
   dseg (h(last ys \<mapsto> r\<lparr>next := q'\<rparr>)) pv p ys q'"
proof (induction ys arbitrary: pv p)
  case Nil
  then show ?case by simp
next
  case (Cons y ys)
  show ?case
  proof (cases "ys = []")
    case True
    with Cons.prems show ?thesis by auto
  next
    case False
    with Cons.prems obtain ry where ry: "h y = Some ry" "p = y" "y \<noteq> 0" "prev ry = pv"
      "dseg h y (next ry) ys q"
      by (auto split: option.splits)
    have "dseg (h(last ys \<mapsto> r\<lparr>next := q'\<rparr>)) y (next ry) ys q'"
    proof (rule Cons.IH[OF ry(5) False])
      show "distinct ys" using Cons.prems by simp
      show "h (last ys) = Some r" using Cons.prems False by simp
    qed
    moreover have "last ys \<noteq> y" using Cons.prems False by auto
    ultimately show ?thesis using ry False by (simp add: fun_upd_def)
  qed
qed

lemma dseg_set_hd_prev:
  "dseg h pv p zs q \<Longrightarrow> zs \<noteq> [] \<Longrightarrow> distinct zs \<Longrightarrow> h (hd zs) = Some r \<Longrightarrow>
   dseg (h(hd zs \<mapsto> r\<lparr>prev := pv'\<rparr>)) pv' p zs q"
  by (cases zs) (auto split: option.splits simp: dseg_upd_notin)


lemma dseg_dom: "dseg h pv p xs q \<Longrightarrow> set xs \<subseteq> dom h"
  by (induction xs arbitrary: pv p) (auto split: option.splits)

lemma dseg_hd: "dseg h pv p xs q \<Longrightarrow> p = hd (xs @ [q])"
  by (cases xs) auto

lemma heap_payload_eq_refl [simp]: "heap_payload_eq h h"
  by (simp add: heap_payload_eq_def)

lemma heap_payload_eq_trans: "heap_payload_eq h h' \<Longrightarrow> heap_payload_eq h' h'' \<Longrightarrow> heap_payload_eq h h''"
  by (simp add: heap_payload_eq_def)

lemma heap_payload_eq_next: "h x = Some r \<Longrightarrow> heap_payload_eq h (h(x \<mapsto> r\<lparr>next := v\<rparr>))"
  by (simp add: heap_payload_eq_def payload_def)

lemma heap_payload_eq_prev: "h x = Some r \<Longrightarrow> heap_payload_eq h (h(x \<mapsto> r\<lparr>prev := v\<rparr>))"
  by (simp add: heap_payload_eq_def payload_def)

lemma heap_payload_eq_None: "heap_payload_eq h h' \<Longrightarrow> (h' x = None) = (h x = None)"
proof -
  assume "heap_payload_eq h h'"
  then have "map_option payload (h' x) = map_option payload (h x)"
    by (simp add: heap_payload_eq_def)
  then show ?thesis by (cases "h x"; cases "h' x") simp_all
qed

lemma heap_payload_eq_dom: "heap_payload_eq h h' \<Longrightarrow> dom h' = dom h"
  by (auto simp: dom_def heap_payload_eq_None)

lemma heap_payload_eq_Some:
  "heap_payload_eq h h' \<Longrightarrow> h' x = Some r' \<Longrightarrow> \<exists>r. h x = Some r \<and> payload r = payload r'"
proof -
  assume a: "heap_payload_eq h h'" and r': "h' x = Some r'"
  from a have "\<forall>x. map_option payload (h' x) = map_option payload (h x)"
    by (simp add: heap_payload_eq_def)
  then have "map_option payload (h' x) = map_option payload (h x)" ..
  with r' show ?thesis by (cases "h x") simp_all
qed

lemma detach_spec:
  assumes cl: "conn_list st (ys @ S # zs)" and S: "conns st S = Some r"
  shows "\<exists>h'. detach r st = Inr (st\<lparr>sock_active := hd (ys @ zs @ [0]), conns := h'\<rparr>) \<and>
           dseg (h'(S := None)) 0 (hd (ys @ zs @ [0])) (ys @ zs) 0 \<and>
           heap_payload_eq (conns st) h'"
proof -
  let ?h = "conns st"
  from cl have seg: "dseg ?h 0 (sock_active st) (ys @ S # zs) 0"
    and dist: "distinct (ys @ S # zs)"
    by (auto simp: conn_list_def)
  from seg S have segy: "dseg ?h 0 (sock_active st) ys S"
    and S0: "S \<noteq> 0" and pr: "prev r = last (0 # ys)" and segz: "dseg ?h S (next r) zs 0"
    by (auto simp: dseg_append)
  from dist have Sy: "S \<notin> set ys" and Sz: "S \<notin> set zs" and dy: "distinct ys" and dz: "distinct zs"
    and yz: "set ys \<inter> set zs = {}" by auto
  have nx: "next r = hd (zs @ [0])" using dseg_hd[OF segz] .
  have hdy: "sock_active st = hd (ys @ [S])" using dseg_hd[OF segy] .
  \<comment> \<open>first assignment\<close>
  define h1 where "h1 = (if ys = [] then ?h else ?h(last ys \<mapsto> (the (?h (last ys)))\<lparr>next := next r\<rparr>))"
  define st1 where "st1 = st\<lparr>sock_active := hd (ys @ zs @ [0]), conns := h1\<rparr>"
  have step1: "(if prev r = 0 then Inr (st\<lparr>sock_active := next r\<rparr>)
                else set_next (prev r) (next r) st) = Inr st1"
  proof (cases "ys = []")
    case True
    then show ?thesis using pr nx by (simp add: st1_def h1_def)
  next
    case False
    then have ly: "last ys \<in> set ys" by simp
    then have "last ys \<noteq> 0" using dseg_nonzero[OF segy] by auto
    moreover obtain ry where "?h (last ys) = Some ry" using dseg_dom[OF segy] ly by auto
    moreover have "hd (ys @ zs @ [0]) = sock_active st" using False hdy by simp
    ultimately show ?thesis using False pr
      by (simp add: st1_def h1_def set_next_def)
  qed
  have seg1y: "dseg h1 0 (hd (ys @ [next r])) ys (next r)"
  proof (cases "ys = []")
    case True
    then show ?thesis by (simp add: h1_def)
  next
    case False
    then have ly: "last ys \<in> set ys" by simp
    obtain ry where ry: "?h (last ys) = Some ry" using dseg_dom[OF segy] ly by auto
    have "hd (ys @ [next r]) = sock_active st" using False hdy by simp
    then show ?thesis using dseg_set_last_next[OF segy False dy ry] False ry by (simp add: h1_def)
  qed
  have seg1z: "dseg h1 S (next r) zs 0"
  proof (cases "ys = []")
    case True
    then show ?thesis using segz by (simp add: h1_def)
  next
    case False
    then have "last ys \<in> set ys" by simp
    then have "last ys \<notin> set zs" using yz by auto
    then show ?thesis using segz False by (simp add: h1_def dseg_upd_notin)
  qed
  have pe1: "heap_payload_eq ?h h1"
  proof (cases "ys = []")
    case True
    then show ?thesis by (simp add: h1_def)
  next
    case False
    then have ly: "last ys \<in> set ys" by simp
    obtain ry where ry: "?h (last ys) = Some ry" using dseg_dom[OF segy] ly by auto
    show ?thesis using heap_payload_eq_next[of ?h "last ys" ry "next r"] False ry by (simp add: h1_def)
  qed
  \<comment> \<open>second assignment\<close>
  define h2 where "h2 = (if zs = [] then h1 else h1(hd zs \<mapsto> (the (h1 (hd zs)))\<lparr>prev := prev r\<rparr>))"
  define st2 where "st2 = st\<lparr>sock_active := hd (ys @ zs @ [0]), conns := h2\<rparr>"
  have step2: "(if next r \<noteq> 0 then set_prev (next r) (prev r) st1 else Inr st1) = Inr st2"
  proof (cases "zs = []")
    case True
    then show ?thesis using nx by (simp add: st1_def st2_def h2_def)
  next
    case False
    then have hz: "hd zs \<in> set zs" by simp
    then have "hd zs \<noteq> 0" using dseg_nonzero[OF segz] by auto
    moreover obtain rz where "h1 (hd zs) = Some rz" using dseg_dom[OF seg1z] hz by auto
    ultimately show ?thesis using False nx
      by (simp add: st1_def st2_def h2_def set_prev_def)
  qed
  have seg2z: "dseg h2 (prev r) (next r) zs 0"
  proof (cases "zs = []")
    case True
    then show ?thesis using seg1z by (simp add: h2_def)
  next
    case False
    then have hz: "hd zs \<in> set zs" by simp
    obtain rz where rz: "h1 (hd zs) = Some rz" using dseg_dom[OF seg1z] hz by auto
    show ?thesis using dseg_set_hd_prev[OF seg1z False dz rz] False rz by (simp add: h2_def)
  qed
  have seg2y: "dseg h2 0 (hd (ys @ [next r])) ys (next r)"
  proof (cases "zs = []")
    case True
    then show ?thesis using seg1y by (simp add: h2_def)
  next
    case False
    then have "hd zs \<in> set zs" by simp
    then have "hd zs \<notin> set ys" using yz by auto
    then show ?thesis using seg1y False by (simp add: h2_def dseg_upd_notin)
  qed
  have pe2: "heap_payload_eq h1 h2"
  proof (cases "zs = []")
    case True
    then show ?thesis by (simp add: h2_def)
  next
    case False
    then have hz: "hd zs \<in> set zs" by simp
    obtain rz where rz: "h1 (hd zs) = Some rz" using dseg_dom[OF seg1z] hz by auto
    show ?thesis using heap_payload_eq_prev[of h1 "hd zs" rz "prev r"] False rz by (simp add: h2_def)
  qed
  have "dseg h2 0 (hd (ys @ [next r])) (ys @ zs) 0"
    using seg2y seg2z pr by (auto simp: dseg_append)
  moreover have "hd (ys @ [next r]) = hd (ys @ zs @ [0])"
    using nx by (cases ys) auto
  ultimately have "dseg (h2(S := None)) 0 (hd (ys @ zs @ [0])) (ys @ zs) 0"
    using Sy Sz by (simp add: dseg_upd_notin)
  moreover have "detach r st = Inr st2"
    using step1 step2 by (simp add: detach_def)
  moreover have "heap_payload_eq ?h h2"
    using pe1 pe2 by (rule heap_payload_eq_trans)
  ultimately show ?thesis unfolding st2_def by blast
qed


subsection \<open>The effect of each function on the list and on the connections\<close>

lemma heap_payload_eq_pmap: "heap_payload_eq (conns st) (conns st') = (pmap st' = pmap st)"
  by (auto simp: heap_payload_eq_def pmap_def fun_eq_iff)

lemma pmap_Some: "pmap st S = Some (s, rd, n) \<longleftrightarrow>
   (\<exists>r. conns st S = Some r \<and> S_s r = s \<and> read_cookie r = rd \<and> nrequests r = n)"
  by (cases "conns st S") (auto simp: pmap_def payload_def)

lemma pmap_None: "pmap st S = None \<longleftrightarrow> conns st S = None"
  by (simp add: pmap_def)

lemma all_busy_pmap: "all_busy st = (\<forall>S s rd n. pmap st S = Some (s, rd, n) \<longrightarrow> rd \<or> n \<noteq> 0)"
  unfolding all_busy_def pmap_Some by blast

lemma pmap_upd: "pmap (st\<lparr>conns := (conns st)(S \<mapsto> r)\<rparr>) = (pmap st)(S \<mapsto> payload r)"
  by (auto simp: pmap_def fun_eq_iff)

lemma pmap_del: "pmap (st\<lparr>conns := (conns st)(S := None)\<rparr>) = (pmap st)(S := None)"
  by (auto simp: pmap_def fun_eq_iff)

lemma conn_list_payload_upd:
  assumes "conn_list st xs" "conns st S = Some r" "next r' = next r" "prev r' = prev r"
  shows "conn_list (st\<lparr>conns := (conns st)(S \<mapsto> r')\<rparr>) xs"
proof -
  have "dseg ((conns st)(S \<mapsto> r')) 0 (sock_active st) xs 0 = dseg (conns st) 0 (sock_active st) xs 0"
    by (rule dseg_cong) (use assms in auto)
  moreover have "dom ((conns st)(S \<mapsto> r')) = dom (conns st)" using assms by auto
  ultimately show ?thesis using assms by (simp add: conn_list_def)
qed

lemma conn_list_only_listen: "only_listen st st' \<Longrightarrow> conn_list st' xs = conn_list st xs"
  by (simp add: only_listen_def conn_list_def)

lemma dropconn_spec:
  assumes cl: "conn_list st xs" and n: "unat (nsock_active st) = length xs"
    and d: "dropconn e S st = Inr (rc, st')"
  shows "S \<in> set xs \<and> conn_list st' (remove1 S xs) \<and>
         unat (nsock_active st') = length (remove1 S xs) \<and>
         heap_payload_eq ((conns st)(S := None)) (conns st') \<and> same_config st st'"
proof -
  from d obtain r st2 rc1 st4 where r: "conns st S = Some r"
    and dt: "detach r st = Inr st2"
    and c: "(if nsock_active st2 = nsock_active_max st2
      then accept_start e (st2\<lparr>nsock_active := nsock_active st2 - 1\<rparr>)
      else (0, st2\<lparr>nsock_active := nsock_active st2 - 1\<rparr>)) = (rc1, st4)"
    and f: "st' = st4\<lparr>conns := (conns st4)(S := None)\<rparr>"
    by (rule dropconn_Inr)
  from cl r have Sin: "S \<in> set xs" by (auto simp: conn_list_def)
  then obtain ys zs where xs: "xs = ys @ S # zs" by (auto simp: in_set_conv_decomp)
  from cl have dist: "distinct xs" by (simp add: conn_list_def)
  with xs have rem: "remove1 S xs = ys @ zs" by (simp add: remove1_append)
  from detach_spec[OF cl[unfolded xs] r] dt obtain h' where
    st2: "st2 = st\<lparr>sock_active := hd (ys @ zs @ [0]), conns := h'\<rparr>"
    and seg: "dseg (h'(S := None)) 0 (hd (ys @ zs @ [0])) (ys @ zs) 0"
    and pe: "heap_payload_eq (conns st) h'"
    by auto
  have ol: "only_listen (st2\<lparr>nsock_active := nsock_active st2 - 1\<rparr>) st4"
    using c accept_start_only_listen by (auto split: if_splits)
  have conns': "conns st' = h'(S := None)" and head': "sock_active st' = hd (ys @ zs @ [0])"
    and n': "nsock_active st' = nsock_active st - 1"
    using ol st2 f by (simp_all add: only_listen_def)
  have "dom (h'(S := None)) = set (ys @ zs)"
    using heap_payload_eq_dom[OF pe] cl xs dist by (auto simp: conn_list_def)
  with seg dist xs have 1: "conn_list st' (ys @ zs)"
    by (simp add: conn_list_def conns' head')
  have "nsock_active st \<noteq> 0" using n Sin by (auto simp: unat_eq_0[symmetric] simp del: unat_eq_0)
  then have 2: "unat (nsock_active st') = length (ys @ zs)"
    using n xs by (simp add: n' unat_minus_one)
  have 3: "heap_payload_eq ((conns st)(S := None)) (conns st')"
    using pe by (simp add: heap_payload_eq_def conns')
  from dropconn_config[OF d] have 4: "same_config st st'" by simp
  from Sin 1 2 3 4 rem show ?thesis by simp
qed

lemma dropconn_pmap:
  assumes "linv st" and d: "dropconn e S st = Inr (rc, st')"
  shows "linv st' \<and> same_config st st' \<and> pmap st' = (pmap st)(S := None)"
proof -
  from assms obtain xs where cl: "conn_list st xs" and n: "unat (nsock_active st) = length xs"
    by (auto simp: linv_def)
  from dropconn_spec[OF cl n d] have "conn_list st' (remove1 S xs)"
    "unat (nsock_active st') = length (remove1 S xs)"
    "heap_payload_eq ((conns st)(S := None)) (conns st')" "same_config st st'"
    by auto
  moreover have "heap_payload_eq ((conns st)(S := None)) (conns st') \<Longrightarrow> pmap st' = (pmap st)(S := None)"
    by (auto simp: heap_payload_eq_def pmap_def fun_eq_iff)
  ultimately show ?thesis by (auto simp: linv_def)
qed

lemma linv_payload_upd:
  assumes "linv st" "conns st S = Some r" "next r' = next r" "prev r' = prev r"
  shows "linv (st\<lparr>conns := (conns st)(S \<mapsto> r')\<rparr>)"
  using assms conn_list_payload_upd[of st _ S r r'] by (auto simp: linv_def)

lemma readreq_cancel_spec:
  assumes l: "linv st" and c: "readreq_cancel e S st = Inr (rc, st')"
  shows "linv st' \<and> same_config st st' \<and>
         (\<exists>s rd n. pmap st S = Some (s, rd, n) \<and>
            pmap st' = (if n = 0 then (pmap st)(S := None) else (pmap st)(S \<mapsto> (s, False, n))))"
proof -
  from c obtain r where r: "conns st S = Some r"
    by (auto simp: readreq_cancel_def split: option.splits)
  define st1 where "st1 = st\<lparr>conns := (conns st)(S \<mapsto> r\<lparr>read_cookie := False\<rparr>)\<rparr>"
  have l1: "linv st1" unfolding st1_def by (rule linv_payload_upd[OF l r]) simp_all
  have c1: "same_config st st1" by (simp add: st1_def same_config_def)
  have p1: "pmap st1 = (pmap st)(S \<mapsto> (S_s r, False, nrequests r))"
    by (simp add: st1_def pmap_upd payload_def)
  have p0: "pmap st S = Some (S_s r, read_cookie r, nrequests r)"
    using r by (simp add: pmap_Some)
  show ?thesis
  proof (cases "nrequests r = 0")
    case True
    with c r obtain rc2 where d: "dropconn e S st1 = Inr (rc2, st')"
      by (auto simp: readreq_cancel_def st1_def Let_def split: sum.splits if_splits)
    from dropconn_pmap[OF l1 d] c1 p1 p0 True show ?thesis
      by (auto intro: same_config_trans)
  next
    case False
    with c r have "st' = st1" by (auto simp: readreq_cancel_def st1_def Let_def)
    with l1 c1 p1 p0 False show ?thesis by auto
  qed
qed

lemma reqdone_spec:
  assumes l: "linv st" and c: "reqdone e S st = Inr (rc, st')"
  shows "linv st' \<and> same_config st st' \<and>
         (\<exists>s rd n. pmap st S = Some (s, rd, n) \<and>
            pmap st' = (if n - 1 = 0 \<and> \<not> rd then (pmap st)(S := None)
                        else (pmap st)(S \<mapsto> (s, rd, n - 1))))"
proof -
  from c obtain r where r: "conns st S = Some r"
    by (auto simp: reqdone_def split: option.splits)
  define st1 where "st1 = st\<lparr>conns := (conns st)(S \<mapsto> r\<lparr>nrequests := nrequests r - 1\<rparr>)\<rparr>"
  have l1: "linv st1" unfolding st1_def by (rule linv_payload_upd[OF l r]) simp_all
  have c1: "same_config st st1" by (simp add: st1_def same_config_def)
  have p1: "pmap st1 = (pmap st)(S \<mapsto> (S_s r, read_cookie r, nrequests r - 1))"
    by (simp add: st1_def pmap_upd payload_def)
  have p0: "pmap st S = Some (S_s r, read_cookie r, nrequests r)"
    using r by (simp add: pmap_Some)
  show ?thesis
  proof (cases "nrequests r - 1 = 0 \<and> \<not> read_cookie r")
    case True
    with c r obtain rc2 where d: "dropconn e S st1 = Inr (rc2, st')"
      by (auto simp: reqdone_def st1_def Let_def split: sum.splits if_splits)
    from dropconn_pmap[OF l1 d] c1 p1 p0 True show ?thesis
      by (auto intro: same_config_trans)
  next
    case False
    with c r have "st' = st1" by (auto simp: reqdone_def st1_def Let_def)
    with l1 c1 p1 p0 False show ?thesis by auto
  qed
qed

lemma readreq_Inr:
  assumes "readreq e S st = Inr (rc, st')"
  obtains r where "conns st S = Some r" "\<not> read_cookie r"
    "st' = st\<lparr>conns := (conns st)(S \<mapsto> r\<lparr>read_cookie := (rc = 0)\<rparr>)\<rparr>"
    "rc = 0 \<or> rc = - 1" "(rc = 0) = wire_readpacket_ok e"
  using assms by (auto simp: readreq_def split: option.splits if_splits)

lemma gotrequest_spec:
  assumes l: "linv st" and c: "callback_gotrequest e S pkt st = Inr (0, st')"
  shows "linv st' \<and> nsock_active_max st' = nsock_active_max st \<and> failed st' = failed st \<and>
         length (sock_listen st') = length (sock_listen st) \<and>
         (\<exists>s rd n. pmap st S = Some (s, rd, n) \<and>
            (if pkt then mpool_forwardee_malloc e \<noteq> 0 \<and>
                  fwds st' = (fwds st)(mpool_forwardee_malloc e \<mapsto> \<lparr>conn = S, P = Request\<rparr>) \<and>
                  pmap st' = (pmap st)(S \<mapsto> (s, True, n + 1)) \<and>
                  sock_listen st' = sock_listen st \<and> nsock_active st' = nsock_active st
             else fwds st' = fwds st \<and>
                  pmap st' = (if n = 0 then (pmap st)(S := None)
                              else (pmap st)(S \<mapsto> (s, False, n)))))"
proof -
  from c obtain r where r: "conns st S = Some r"
    by (auto simp: callback_gotrequest_def split: option.splits)
  define st1 where "st1 = st\<lparr>conns := (conns st)(S \<mapsto> r\<lparr>read_cookie := False\<rparr>)\<rparr>"
  have l1: "linv st1" unfolding st1_def by (rule linv_payload_upd[OF l r]) simp_all
  have c1: "same_config st st1" by (simp add: st1_def same_config_def)
  have p1: "pmap st1 = (pmap st)(S \<mapsto> (S_s r, False, nrequests r))"
    by (simp add: st1_def pmap_upd payload_def)
  have p0: "pmap st S = Some (S_s r, read_cookie r, nrequests r)"
    using r by (simp add: pmap_Some)
  show ?thesis
  proof (cases pkt)
    case False
    show ?thesis
    proof (cases "nrequests r = 0")
      case True
      with c r False obtain rc2 where d: "dropconn e S st1 = Inr (rc2, st')"
        by (auto simp: callback_gotrequest_def st1_def Let_def split: sum.splits if_splits)
      from dropconn_pmap[OF l1 d] c1 p1 p0 True False show ?thesis
        by (auto simp: same_config_def)
    next
      case nz: False
      with c r False have "st' = st1" by (auto simp: callback_gotrequest_def st1_def Let_def)
      with l1 c1 p1 p0 nz False show ?thesis by (auto simp: same_config_def)
    qed
  next
    case True
    define F where "F = mpool_forwardee_malloc e"
    define r2 where "r2 = r\<lparr>read_cookie := False, nrequests := nrequests r + 1\<rparr>"
    define st2 where "st2 = st1\<lparr>fwds := (fwds st1)(F \<mapsto> \<lparr>conn = S, P = Request\<rparr>),
                                   conns := (conns st1)(S \<mapsto> r2)\<rparr>"
    from c r True have F0: "F \<noteq> 0"
      by (auto simp: callback_gotrequest_def F_def Let_def split: if_splits)
    with c r True have rr: "readreq e S st2 = Inr (0, st')"
      by (auto simp: callback_gotrequest_def F_def st1_def st2_def r2_def Let_def
               split: if_splits sum.splits)
    have st2': "st2 = (st\<lparr>fwds := (fwds st)(F \<mapsto> \<lparr>conn = S, P = Request\<rparr>)\<rparr>)
                      \<lparr>conns := (conns st)(S \<mapsto> r2)\<rparr>"
      by (simp add: st2_def st1_def)
    from rr have st': "st' = st2\<lparr>conns := (conns st2)(S \<mapsto> r2\<lparr>read_cookie := True\<rparr>)\<rparr>"
      by (rule readreq_Inr) (auto simp: st2_def)
    have "linv (st\<lparr>conns := (conns st)(S \<mapsto> r2\<lparr>read_cookie := True\<rparr>)\<rparr>)"
      by (rule linv_payload_upd[OF l r]) (simp_all add: r2_def)
    then have "linv st'"
      by (simp add: st' st2' linv_def conn_list_def)
    moreover have "pmap st' = (pmap st)(S \<mapsto> (S_s r, True, nrequests r + 1))"
      by (auto simp: st' st2' pmap_def payload_def r2_def fun_eq_iff)
    ultimately show ?thesis using True F0 p0
      by (simp add: st' st2' F_def)
  qed
qed

lemma accept_stop_none: "\<not> list_ex accept_cookie (sock_listen (accept_stop st))"
  by (auto simp: accept_stop_def list_ex_iff)

lemma accept_loop_all:
  "accept_loop e i Ls = (True, Ls') \<Longrightarrow> list_all accept_cookie Ls'"
  by (induction Ls arbitrary: i Ls') (auto split: if_splits prod.splits)

lemma accept_start_0:
  assumes "accept_start e st = (0, st')"
  shows "list_all accept_cookie (sock_listen st') \<and> \<not> list_ex accept_cookie (sock_listen st)"
proof -
  from assms have n: "\<not> list_ex accept_cookie (sock_listen st)"
    by (auto simp: accept_start_def split: if_splits)
  obtain ok Ls where l: "accept_loop e 0 (sock_listen st) = (ok, Ls)" by fastforce
  with assms n have "ok" "st' = st\<lparr>sock_listen := Ls\<rparr>"
    by (cases ok; auto simp: accept_start_def)+
  with l n show ?thesis by (auto dest: accept_loop_all)
qed

lemma accept_start_fail:
  assumes "accept_start e st = (rc, st')" "rc \<noteq> 0"
  shows "(list_ex accept_cookie (sock_listen st) \<and> st' = st) \<or>
         \<not> list_ex accept_cookie (sock_listen st')"
proof (cases "list_ex accept_cookie (sock_listen st)")
  case True
  with assms show ?thesis by (simp add: accept_start_def)
next
  case False
  obtain ok Ls where l: "accept_loop e 0 (sock_listen st) = (ok, Ls)" by fastforce
  with assms False have "st' = accept_stop (st\<lparr>sock_listen := Ls\<rparr>)"
    by (cases ok; auto simp: accept_start_def)
  then show ?thesis using accept_stop_none by simp
qed

lemma distinct_nonzero_length:
  assumes "distinct ys" "(0::addr) \<notin> set ys"
  shows "length ys < 2 ^ 64"
proof -
  have "Suc (length ys) = card (insert 0 (set ys))"
    using assms by (simp add: distinct_card)
  also have "\<dots> \<le> card (UNIV :: addr set)" by (rule card_mono) auto
  also have "\<dots> = 2 ^ 64" by (simp add: card_word)
  finally show ?thesis by simp
qed

lemma unat_inc:
  assumes "unat (n :: size_t) < 2 ^ 64 - 1"
  shows "unat (n + 1) = unat n + 1"
proof -
  have "unat n + unat (1 :: size_t) < 2 ^ LENGTH(64)" using assms by simp
  then have "unat (n + 1) = unat n + unat (1 :: size_t)" by (simp only: unat_add_lem)
  then show ?thesis by simp
qed

lemma link_head_spec:
  assumes seg: "dseg (conns st) 0 (sock_active st) xs 0" and dist: "distinct xs"
    and S: "conns st S = Some r" and Sx: "S \<notin> set xs" and S0: "S \<noteq> 0" and pr: "prev r = 0"
  shows "\<exists>h'. link_head S st = Inr (st\<lparr>sock_active := S, conns := h'\<rparr>) \<and>
           dseg h' 0 S (S # xs) 0 \<and> heap_payload_eq (conns st) h'"
proof -
  let ?h = "conns st"
  define h1 where "h1 = ?h(S \<mapsto> r\<lparr>next := sock_active st\<rparr>)"
  have s1: "set_next S (sock_active st) st = Inr (st\<lparr>conns := h1\<rparr>)"
    using S by (simp add: set_next_def h1_def)
  have seg1: "dseg h1 0 (sock_active st) xs 0"
    using seg Sx by (simp add: h1_def dseg_upd_notin)
  have pe1: "heap_payload_eq ?h h1"
    unfolding h1_def using S by (rule heap_payload_eq_next)
  have hS: "h1 S = Some (r\<lparr>next := sock_active st\<rparr>)" by (simp add: h1_def)
  show ?thesis
  proof (cases xs)
    case Nil
    with seg have hd0: "sock_active st = 0" by simp
    then have "link_head S st = Inr (st\<lparr>sock_active := S, conns := h1\<rparr>)"
      using s1 by (simp add: link_head_def)
    moreover have "dseg h1 0 S (S # xs) 0"
      using Nil hS S0 pr hd0 by simp
    ultimately show ?thesis using pe1 by blast
  next
    case (Cons x xs')
    with seg1 have hdx: "sock_active st = x" and x0: "x \<noteq> 0" by auto
    from Cons Sx have xS: "x \<noteq> S" by auto
    from seg1 Cons obtain rx where rx: "h1 x = Some rx" by (auto split: option.splits)
    define h2 where "h2 = h1(x \<mapsto> rx\<lparr>prev := S\<rparr>)"
    have "set_prev x S (st\<lparr>conns := h1\<rparr>) = Inr (st\<lparr>conns := h2\<rparr>)"
      using rx by (simp add: set_prev_def h2_def)
    then have "link_head S st = Inr (st\<lparr>sock_active := S, conns := h2\<rparr>)"
      using s1 hdx x0 by (simp add: link_head_def)
    moreover have "dseg h2 S x xs 0"
      using dseg_set_hd_prev[of h1 0 "sock_active st" xs 0 rx S] seg1 Cons dist rx hdx
      by (simp add: h2_def)
    then have "dseg h2 0 S (S # xs) 0"
      using hS S0 pr hdx xS by (simp add: h2_def)
    moreover have "heap_payload_eq h1 h2"
      unfolding h2_def using rx by (rule heap_payload_eq_prev)
    then have "heap_payload_eq ?h h2" using pe1 heap_payload_eq_trans by blast
    ultimately show ?thesis by blast
  qed
qed

lemma gotconn_Inr0:
  assumes c: "callback_gotconn e i s st = Inr (0, st')"
  obtains st4 st7 where
    "i < length (sock_listen st)" "malloc_S e \<noteq> 0"
    "st4 = (accept_stop (st\<lparr>sock_listen :=
               (sock_listen st)[i := (sock_listen st ! i)\<lparr>accept_cookie := False\<rparr>]\<rparr>))
             \<lparr>conns := (conns st)(malloc_S e \<mapsto>
                 \<lparr>next = 0, prev = 0, S_s = s, read_cookie = True, nrequests = 0\<rparr>)\<rparr>"
    "link_head (malloc_S e) st4 = Inr st7"
    "if nsock_active st7 + 1 < nsock_active_max st7
     then accept_start e (st7\<lparr>nsock_active := nsock_active st7 + 1\<rparr>) = (0, st')
     else st' = st7\<lparr>nsock_active := nsock_active st7 + 1\<rparr>"
proof -
  define S where "S = malloc_S e"
  define st2 where "st2 = accept_stop (st\<lparr>sock_listen :=
               (sock_listen st)[i := (sock_listen st ! i)\<lparr>accept_cookie := False\<rparr>]\<rparr>)"
  define st3 where "st3 = st2\<lparr>conns := (conns st2)(S \<mapsto>
                              \<lparr>next = 0, prev = 0, S_s = s, read_cookie = False,
                               nrequests = 0\<rparr>)\<rparr>"
  have cst2: "conns st2 = conns st" by (simp add: st2_def accept_stop_def)
  from c have i: "i < length (sock_listen st)"
    by (auto simp: callback_gotconn_def split: if_splits)
  with c have s: "s \<noteq> - 1" by (auto simp: callback_gotconn_def Let_def split: if_splits)
  with c i have S0: "S \<noteq> 0"
    by (auto simp: callback_gotconn_def Let_def S_def split: if_splits)
  with c i s have ok: "fcntl_ok e" "netbuf_write_init_ok e" "netbuf_read_init_ok e"
    by (auto simp: callback_gotconn_def Let_def S_def split: if_splits)
  from c i s S0 ok obtain rc4 st4 where rr: "readreq e S st3 = Inr (rc4, st4)"
    by (cases "readreq e S st3")
       (auto simp: callback_gotconn_def Let_def S_def st2_def st3_def)
  with c i s S0 ok have rc4: "rc4 = 0"
    by (auto simp: callback_gotconn_def Let_def S_def st2_def st3_def split: if_splits)
  from rr rc4 have st4: "st4 = st2\<lparr>conns := (conns st)(S \<mapsto>
                 \<lparr>next = 0, prev = 0, S_s = s, read_cookie = True, nrequests = 0\<rparr>)\<rparr>"
    by (auto elim!: readreq_Inr simp: st3_def cst2)
  from c i s S0 ok rr rc4 obtain st7 where lh: "link_head S st4 = Inr st7"
    by (cases "link_head S st4")
       (auto simp: callback_gotconn_def Let_def S_def st2_def st3_def)
  from c i s S0 ok rr rc4 lh have
    "if nsock_active st7 + 1 < nsock_active_max st7
     then accept_start e (st7\<lparr>nsock_active := nsock_active st7 + 1\<rparr>) = (0, st')
     else st' = st7\<lparr>nsock_active := nsock_active st7 + 1\<rparr>"
    by (auto simp: callback_gotconn_def Let_def S_def st2_def st3_def
             split: if_splits prod.splits)
  with i S0 st4 lh show ?thesis using that unfolding S_def st2_def by blast
qed

lemma gotconn_list:
  assumes cl: "conn_list st xs" and n: "unat (nsock_active st) = length xs"
    and fresh: "malloc_S e = 0 \<or> conns st (malloc_S e) = None"
    and c: "callback_gotconn e i s st = Inr (0, st')"
  shows "conn_list st' (malloc_S e # xs) \<and> unat (nsock_active st') = Suc (length xs) \<and>
         nsock_active_max st' = nsock_active_max st \<and> failed st' = failed st \<and>
         length (sock_listen st') = length (sock_listen st) \<and> fwds st' = fwds st \<and>
         malloc_S e \<noteq> 0 \<and> pmap st' = (pmap st)(malloc_S e \<mapsto> (s, True, 0)) \<and>
         nsock_active st' = nsock_active st + 1 \<and>
         (if nsock_active st + 1 < nsock_active_max st
          then list_all accept_cookie (sock_listen st')
          else \<not> list_ex accept_cookie (sock_listen st'))"
proof -
  define S where "S = malloc_S e"
  define new where "new = \<lparr>next = 0, prev = 0, S_s = s, read_cookie = True, nrequests = 0\<rparr>"
  define st2 where "st2 = accept_stop (st\<lparr>sock_listen :=
               (sock_listen st)[i := (sock_listen st ! i)\<lparr>accept_cookie := False\<rparr>]\<rparr>)"
  from c obtain st4 st7 where S0: "S \<noteq> 0"
    and st4: "st4 = st2\<lparr>conns := (conns st)(S \<mapsto> new)\<rparr>"
    and lh: "link_head S st4 = Inr st7"
    and fin: "if nsock_active st7 + 1 < nsock_active_max st7
     then accept_start e (st7\<lparr>nsock_active := nsock_active st7 + 1\<rparr>) = (0, st')
     else st' = st7\<lparr>nsock_active := nsock_active st7 + 1\<rparr>"
    unfolding S_def new_def st2_def by (rule gotconn_Inr0)
  from fresh S0 have Sf: "conns st S = None" by (simp add: S_def)
  have ol2: "only_listen st st2"
    by (simp add: st2_def accept_stop_def only_listen_def)
  have none2: "\<not> list_ex accept_cookie (sock_listen st2)"
    unfolding st2_def by (rule accept_stop_none)
  from cl Sf have Sx: "S \<notin> set xs" by (auto simp: conn_list_def)
  from cl have dist: "distinct xs" and seg: "dseg (conns st) 0 (sock_active st) xs 0"
    and dom: "set xs = dom (conns st)"
    by (auto simp: conn_list_def)
  have seg4: "dseg (conns st4) 0 (sock_active st4) xs 0"
    using seg Sx ol2 by (simp add: st4 only_listen_def dseg_upd_notin)
  have S4: "conns st4 S = Some new" by (simp add: st4)
  from link_head_spec[OF seg4 dist S4 Sx S0] lh obtain h' where
    st7: "st7 = st4\<lparr>sock_active := S, conns := h'\<rparr>"
    and seg7: "dseg h' 0 S (S # xs) 0" and pe: "heap_payload_eq (conns st4) h'"
    by (auto simp: new_def)
  define st8 where "st8 = st7\<lparr>nsock_active := nsock_active st7 + 1\<rparr>"
  have n7: "nsock_active st7 = nsock_active st" and m7: "nsock_active_max st7 = nsock_active_max st"
    using ol2 by (simp_all add: st7 st4 only_listen_def)
  have ol8: "only_listen st8 st'"
    using fin accept_start_only_listen[of e st8 0 st'] by (auto simp: st8_def split: if_splits)
  have cl8: "conn_list st8 (S # xs)"
    using seg7 dist Sx dom heap_payload_eq_dom[OF pe]
    by (auto simp: conn_list_def st8_def st7 st4)
  have "distinct (S # xs)" "0 \<notin> set (S # xs)"
    using dist Sx dseg_nonzero[OF seg7] by auto
  then have "length (S # xs) < 2 ^ 64" by (rule distinct_nonzero_length)
  then have "unat (nsock_active st) < 2 ^ 64 - 1" using n by simp
  then have n8: "unat (nsock_active st8) = length (S # xs)"
    using n by (simp add: st8_def n7 unat_inc)
  have l': "conn_list st' (S # xs) \<and> unat (nsock_active st') = Suc (length xs)"
    using cl8 n8 ol8 conn_list_only_listen[OF ol8] by (auto simp: only_listen_def)
  have "pmap st8 = (pmap st)(S \<mapsto> (s, True, 0))"
    using pe by (auto simp: heap_payload_eq_def pmap_def st8_def st7 st4 new_def payload_def fun_eq_iff)
  then have p': "pmap st' = (pmap st)(S \<mapsto> (s, True, 0))"
    using ol8 by (simp add: pmap_def only_listen_def)
  have cfg8: "nsock_active_max st8 = nsock_active_max st" "failed st8 = failed st"
    "length (sock_listen st8) = length (sock_listen st)" "fwds st8 = fwds st"
    "nsock_active st8 = nsock_active st + 1" "sock_listen st8 = sock_listen st2"
    using ol2 by (simp_all add: st8_def st7 st4 only_listen_def)
  have li: "if nsock_active st + 1 < nsock_active_max st
          then list_all accept_cookie (sock_listen st')
          else \<not> list_ex accept_cookie (sock_listen st')"
  proof (cases "nsock_active st + 1 < nsock_active_max st")
    case True
    with fin have "accept_start e st8 = (0, st')" by (simp add: st8_def n7 m7)
    with True show ?thesis by (auto dest: accept_start_0)
  next
    case False
    with fin have "st' = st8" by (simp add: st8_def n7 m7)
    with False none2 cfg8 show ?thesis by simp
  qed
  from l' p' cfg8 ol8 li S0 show ?thesis by (simp add: only_listen_def S_def)
qed

lemma gotconn_spec:
  assumes l: "linv st" and fresh: "malloc_S e = 0 \<or> conns st (malloc_S e) = None"
    and c: "callback_gotconn e i s st = Inr (0, st')"
  shows "linv st' \<and> nsock_active_max st' = nsock_active_max st \<and> failed st' = failed st \<and>
         length (sock_listen st') = length (sock_listen st) \<and> fwds st' = fwds st \<and>
         malloc_S e \<noteq> 0 \<and> pmap st' = (pmap st)(malloc_S e \<mapsto> (s, True, 0)) \<and>
         nsock_active st' = nsock_active st + 1 \<and>
         (if nsock_active st + 1 < nsock_active_max st
          then list_all accept_cookie (sock_listen st')
          else \<not> list_ex accept_cookie (sock_listen st'))"
proof -
  from l obtain xs where cl: "conn_list st xs" and n: "unat (nsock_active st) = length xs"
    by (auto simp: linv_def)
  note gl = gotconn_list[OF cl n fresh c]
  from gl[THEN conjunct1] have g1: "conn_list st' (malloc_S e # xs)" .
  from gl[THEN conjunct2, THEN conjunct1]
  have g2: "unat (nsock_active st') = length (malloc_S e # xs)" by simp
  from g1 g2 have l': "linv st'" unfolding linv_def by blast
  from l' gl[THEN conjunct2, THEN conjunct2] show ?thesis by (rule conjI)
qed

lemma dropconn_dropped:
  assumes d: "dropconn e S st = Inr (0, st')"
  shows "dropped st st'"
proof -
  from d obtain r st2 rc1 st4 where
    dt: "detach r st = Inr st2"
    and c: "(if nsock_active st2 = nsock_active_max st2
      then accept_start e (st2\<lparr>nsock_active := nsock_active st2 - 1\<rparr>)
      else (0, st2\<lparr>nsock_active := nsock_active st2 - 1\<rparr>)) = (rc1, st4)"
    and f: "st' = st4\<lparr>conns := (conns st4)(S := None)\<rparr>"
    and r: "conns st S = Some r" "\<not> read_cookie r" "nrequests r = 0"
    by (rule dropconn_Inr)
  from d r dt c have rc1: "rc1 = 0"
    by (auto simp: dropconn_def split: if_splits)
  from detach_config[OF dt] have 2: "sock_listen st2 = sock_listen st"
    "nsock_active st2 = nsock_active st" "nsock_active_max st2 = nsock_active_max st"
    by (simp_all add: same_config_def)
  show ?thesis
  proof (cases "nsock_active st = nsock_active_max st")
    case True
    with c rc1 2 have a: "accept_start e (st2\<lparr>nsock_active := nsock_active st2 - 1\<rparr>) = (0, st4)"
      by simp
    from accept_start_0[OF a] accept_start_only_listen[OF a] True 2 f show ?thesis
      by (simp add: dropped_def only_listen_def)
  next
    case False
    with c 2 have "st4 = st2\<lparr>nsock_active := nsock_active st2 - 1\<rparr>" by simp
    with False 2 f show ?thesis by (simp add: dropped_def)
  qed
qed

lemma dropped_upd:
  "dropped (st\<lparr>conns := h\<rparr>) st' = dropped st st'"
  by (simp add: dropped_def)

lemma readreq_cancel_spec0:
  assumes l: "linv st" and c: "readreq_cancel e S st = Inr (0, st')"
  shows "linv st' \<and> same_config st st' \<and>
         (\<exists>s rd n. pmap st S = Some (s, rd, n) \<and>
            (if n = 0 then pmap st' = (pmap st)(S := None) \<and> dropped st st'
             else pmap st' = (pmap st)(S \<mapsto> (s, False, n)) \<and> kept st st'))"
proof -
  from c obtain r where r: "conns st S = Some r"
    by (auto simp: readreq_cancel_def split: option.splits)
  have p0: "pmap st S = Some (S_s r, read_cookie r, nrequests r)"
    using r by (simp add: pmap_Some)
  define st1 where "st1 = st\<lparr>conns := (conns st)(S \<mapsto> r\<lparr>read_cookie := False\<rparr>)\<rparr>"
  from readreq_cancel_spec[OF l c] p0 have g: "linv st'" "same_config st st'"
    "pmap st' = (if nrequests r = 0 then (pmap st)(S := None)
                 else (pmap st)(S \<mapsto> (S_s r, False, nrequests r)))"
    by auto
  have "if nrequests r = 0 then dropped st st' else kept st st'"
  proof (cases "nrequests r = 0")
    case True
    with c r have "dropconn e S st1 = Inr (0, st')"
      by (auto simp: readreq_cancel_def st1_def Let_def split: sum.splits if_splits)
    from dropconn_dropped[OF this] True show ?thesis by (simp add: st1_def dropped_upd)
  next
    case False
    with c r have "st' = st1" by (auto simp: readreq_cancel_def st1_def Let_def)
    with False show ?thesis by (simp add: kept_def st1_def)
  qed
  with g p0 show ?thesis by auto
qed

lemma reqdone_spec0:
  assumes l: "linv st" and c: "reqdone e S st = Inr (0, st')"
  shows "linv st' \<and> same_config st st' \<and>
         (\<exists>s rd n. pmap st S = Some (s, rd, n) \<and>
            (if n - 1 = 0 \<and> \<not> rd then pmap st' = (pmap st)(S := None) \<and> dropped st st'
             else pmap st' = (pmap st)(S \<mapsto> (s, rd, n - 1)) \<and> kept st st'))"
proof -
  from c obtain r where r: "conns st S = Some r"
    by (auto simp: reqdone_def split: option.splits)
  have p0: "pmap st S = Some (S_s r, read_cookie r, nrequests r)"
    using r by (simp add: pmap_Some)
  define st1 where "st1 = st\<lparr>conns := (conns st)(S \<mapsto> r\<lparr>nrequests := nrequests r - 1\<rparr>)\<rparr>"
  from reqdone_spec[OF l c] p0 have g: "linv st'" "same_config st st'"
    "pmap st' = (if nrequests r - 1 = 0 \<and> \<not> read_cookie r then (pmap st)(S := None)
                 else (pmap st)(S \<mapsto> (S_s r, read_cookie r, nrequests r - 1)))"
    by auto
  have "if nrequests r - 1 = 0 \<and> \<not> read_cookie r then dropped st st' else kept st st'"
  proof (cases "nrequests r - 1 = 0 \<and> \<not> read_cookie r")
    case True
    with c r have "dropconn e S st1 = Inr (0, st')"
      by (auto simp: reqdone_def st1_def Let_def split: sum.splits if_splits)
    from dropconn_dropped[OF this] True show ?thesis by (simp add: st1_def dropped_upd)
  next
    case False
    with c r have "st' = st1" by (auto simp: reqdone_def st1_def Let_def)
    with False show ?thesis by (auto simp: kept_def st1_def)
  qed
  with g p0 show ?thesis by auto
qed

lemma stop_reading_preserves_aux:
  assumes "stop_reading e S st = Some y"
  shows "(\<forall>S st st'. I st \<longrightarrow> readreq_cancel e S st = Inr (0, st') \<longrightarrow> I st') \<longrightarrow>
         I st \<longrightarrow> (\<forall>st'. y = Inr (0, st') \<longrightarrow> I st')"
proof (rule stop_reading.raw_induct
         [where P = "\<lambda>e S st y.
            (\<forall>S st st'. I st \<longrightarrow> readreq_cancel e S st = Inr (0, st') \<longrightarrow> I st') \<longrightarrow>
            I st \<longrightarrow> (\<forall>st'. y = Inr (0, st') \<longrightarrow> I st')", OF _ assms])
  fix rec :: "env \<Rightarrow> addr \<Rightarrow> dispatch_state \<Rightarrow> (fault + int \<times> dispatch_state) option"
    and e S st y
  assume IH: "\<And>e S st y. rec e S st = Some y \<Longrightarrow>
            (\<forall>S st st'. I st \<longrightarrow> readreq_cancel e S st = Inr (0, st') \<longrightarrow> I st') \<longrightarrow>
            I st \<longrightarrow> (\<forall>st'. y = Inr (0, st') \<longrightarrow> I st')"
    and eq: "(if S = 0 then Some (Inr (0, st))
      else case conns st S of None \<Rightarrow> Some (Inl BadPointer)
           | Some r \<Rightarrow>
               let S_next = next r
               in if read_cookie r
                  then case readreq_cancel e S st of Inl f \<Rightarrow> Some (Inl f)
                       | Inr (rc, st1) \<Rightarrow>
                           if rc \<noteq> 0 then Some (Inr (- 1, st1))
                           else rec e S_next st1
                  else rec e S_next st) = Some y"
  show "(\<forall>S st st'. I st \<longrightarrow> readreq_cancel e S st = Inr (0, st') \<longrightarrow> I st') \<longrightarrow>
        I st \<longrightarrow> (\<forall>st'. y = Inr (0, st') \<longrightarrow> I st')"
  proof (intro impI allI)
    fix st'
    assume step: "\<forall>S st st'. I st \<longrightarrow> readreq_cancel e S st = Inr (0, st') \<longrightarrow> I st'"
      and Ist: "I st" and y: "y = Inr (0, st')"
    show "I st'"
    proof (cases "S = 0")
      case True
      with eq y Ist show ?thesis by simp
    next
      case False
      with eq y obtain r where r: "conns st S = Some r"
        by (auto split: option.splits)
      show ?thesis
      proof (cases "read_cookie r")
        case True
        with eq y False r obtain rc1 st1 where c1: "readreq_cancel e S st = Inr (rc1, st1)"
          by (cases "readreq_cancel e S st") (auto simp: Let_def)
        have m: "(- 1 :: int) \<noteq> 0" by simp
        from eq y False r True c1 m have rc0: "rc1 = 0"
          by (cases "rc1 = 0") (simp_all add: Let_def)
        from eq False r True c1 rc0 have rc: "rec e (next r) st1 = Some y"
          by (simp add: Let_def)
        from c1 rc0 have c: "readreq_cancel e S st = Inr (0, st1)" by simp
        from step Ist c have "I st1" by blast
        with IH[OF rc] step y show ?thesis by blast
      next
        case nr: False
        with eq False r have "rec e (next r) st = Some y" by (simp add: Let_def)
        from IH[OF this] step y Ist show ?thesis by blast
      qed
    qed
  qed
qed

lemma stop_reading_preserves:
  assumes step: "\<And>S st st'. I st \<Longrightarrow> readreq_cancel e S st = Inr (0, st') \<Longrightarrow> I st'"
    and run: "stop_reading e S st = Some (Inr (0, st'))" and I: "I st"
  shows "I st'"
  using stop_reading_preserves_aux[OF run, of I] step I by blast

lemma writresponse_Inr0:
  assumes c: "callback_writresponse e F w st = Inr (0, st')"
  obtains f where "fwds st F = Some f"
    "reqdone e (conn f) (st\<lparr>fwds := (fwds st)(F := None)\<rparr>) = Inr (0, st')"
proof -
  from c obtain f where f: "fwds st F = Some f"
    by (auto simp: callback_writresponse_def split: option.splits)
  with c obtain rc2 st2 where
    r: "reqdone e (conn f) (st\<lparr>fwds := (fwds st)(F := None)\<rparr>) = Inr (rc2, st2)"
    by (cases "reqdone e (conn f) (st\<lparr>fwds := (fwds st)(F := None)\<rparr>)")
       (auto simp: callback_writresponse_def Let_def)
  with c f have "rc2 = 0" "st2 = st'"
    by (auto simp: callback_writresponse_def Let_def split: if_splits)
  with f r show ?thesis using that by simp
qed

lemma gotresponse_Inr0:
  assumes c: "callback_gotresponse e F buf st = Some (Inr (0, st'))"
  obtains f where "fwds st F = Some f"
    "if buf then conns st (conn f) \<noteq> None \<and> wire_writepacket_ok e \<and>
                 st' = st\<lparr>fwds := (fwds st)(F \<mapsto> f\<lparr>P := Response\<rparr>)\<rparr>
     else (\<exists>st2. reqdone e (conn f) (st\<lparr>fwds := (fwds st)(F := None)\<rparr>) = Inr (0, st2) \<and>
             conns st2 (conn f) \<noteq> None \<and>
             stop_reading e (conn f) ((accept_stop st2)\<lparr>failed := True\<rparr>) =
               Some (Inr (0, st')))"
proof -
  from c obtain f where f: "fwds st F = Some f"
    by (auto simp: callback_gotresponse_def split: option.splits)
  have m: "(- 1 :: int) \<noteq> 0" by simp
  show ?thesis
  proof (cases buf)
    case True
    with c f have "conns st (conn f) \<noteq> None \<and> wire_writepacket_ok e \<and>
                 st' = st\<lparr>fwds := (fwds st)(F \<mapsto> f\<lparr>P := Response\<rparr>)\<rparr>"
      by (auto simp: callback_gotresponse_def Let_def split: option.splits if_splits)
    with f True show ?thesis using that by simp
  next
    case False
    with c f obtain rc2 st2 where
      r: "reqdone e (conn f) (st\<lparr>fwds := (fwds st)(F := None)\<rparr>) = Inr (rc2, st2)"
      by (cases "reqdone e (conn f) (st\<lparr>fwds := (fwds st)(F := None)\<rparr>)")
         (auto simp: callback_gotresponse_def Let_def)
    with c f False m have rc2: "rc2 = 0"
      by (cases "rc2 = 0") (simp_all add: callback_gotresponse_def Let_def)
    with c f False r have "conns st2 (conn f) \<noteq> None \<and>
             stop_reading e (conn f) ((accept_stop st2)\<lparr>failed := True\<rparr>) =
               Some (Inr (0, st'))"
      by (cases "conns st2 (conn f)") (simp_all add: callback_gotresponse_def Let_def)
    with f False r rc2 show ?thesis using that by simp
  qed
qed

lemma linv_fwds [simp]: "linv (st\<lparr>fwds := x\<rparr>) = linv st"
  by (simp add: linv_def conn_list_def)

lemma pmap_fwds [simp]: "pmap (st\<lparr>fwds := x\<rparr>) = pmap st"
  by (simp add: pmap_def)

lemma all_busy_fwds [simp]: "all_busy (st\<lparr>fwds := x\<rparr>) = all_busy st"
  by (simp add: all_busy_def)

lemma linv_only_listen: "only_listen st st' \<Longrightarrow> linv st' = linv st"
  by (simp add: linv_def only_listen_def conn_list_def)

lemma linv_failed [simp]: "linv (st\<lparr>failed := x\<rparr>) = linv st"
  by (simp add: linv_def conn_list_def)

lemma all_busy_only_listen: "only_listen st st' \<Longrightarrow> all_busy st' = all_busy st"
  by (simp add: all_busy_def only_listen_def)

lemma all_busy_failed [simp]: "all_busy (st\<lparr>failed := x\<rparr>) = all_busy st"
  by (simp add: all_busy_def)

lemma readreq_cancel_inv1:
  assumes "inv1 st" "readreq_cancel e S st = Inr (0, st')"
  shows "inv1 st'"
proof -
  from assms have l: "linv st" and b: "all_busy st" by (simp_all add: inv1_def)
  from readreq_cancel_spec0[OF l assms(2)] obtain s rd n where
    l': "linv st'" and p: "pmap st S = Some (s, rd, n)"
    "pmap st' = (if n = 0 then (pmap st)(S := None) else (pmap st)(S \<mapsto> (s, False, n)))"
    by (auto split: if_splits)
  from b p have "all_busy st'" by (auto simp: all_busy_pmap split: if_splits)
  with l' show ?thesis by (simp add: inv1_def)
qed

lemma reqdone_inv1:
  assumes "inv1 st" "reqdone e S st = Inr (0, st')"
  shows "inv1 st'"
proof -
  from assms have l: "linv st" and b: "all_busy st" by (simp_all add: inv1_def)
  from reqdone_spec0[OF l assms(2)] obtain s rd n where
    l': "linv st'" and p: "pmap st S = Some (s, rd, n)"
    "pmap st' = (if n - 1 = 0 \<and> \<not> rd then (pmap st)(S := None)
                 else (pmap st)(S \<mapsto> (s, rd, n - 1)))"
    by (auto split: if_splits)
  from b p have "all_busy st'" by (auto simp: all_busy_pmap split: if_splits)
  with l' show ?thesis by (simp add: inv1_def)
qed

lemma gotconn_inv1:
  assumes "inv1 st" "alloc_fresh e st" "callback_gotconn e i s st = Inr (0, st')"
  shows "inv1 st'"
proof -
  from assms have l: "linv st" and b: "all_busy st"
    and fr: "malloc_S e = 0 \<or> conns st (malloc_S e) = None"
    by (simp_all add: inv1_def alloc_fresh_def)
  from gotconn_spec[OF l fr assms(3)] have l': "linv st'"
    and p: "pmap st' = (pmap st)(malloc_S e \<mapsto> (s, True, 0))"
    by auto
  from b p have "all_busy st'" by (auto simp: all_busy_pmap split: if_splits)
  with l' show ?thesis by (simp add: inv1_def)
qed

lemma gotrequest_inv1:
  assumes "inv1 st" "callback_gotrequest e S pkt st = Inr (0, st')"
  shows "inv1 st'"
proof -
  from assms have l: "linv st" and b: "all_busy st" by (simp_all add: inv1_def)
  from gotrequest_spec[OF l assms(2)] obtain s rd n where l': "linv st'"
    and p: "pmap st S = Some (s, rd, n)"
       "if pkt then pmap st' = (pmap st)(S \<mapsto> (s, True, n + 1))
        else pmap st' = (if n = 0 then (pmap st)(S := None)
                              else (pmap st)(S \<mapsto> (s, False, n)))"
    by (auto split: if_splits)
  from b p have "all_busy st'" by (auto simp: all_busy_pmap split: if_splits)
  with l' show ?thesis by (simp add: inv1_def)
qed

lemma writresponse_inv1:
  assumes "inv1 st" "callback_writresponse e F w st = Inr (0, st')"
  shows "inv1 st'"
proof -
  from assms(2) obtain f where "fwds st F = Some f" and
    r: "reqdone e (conn f) (st\<lparr>fwds := (fwds st)(F := None)\<rparr>) = Inr (0, st')"
    by (rule writresponse_Inr0)
  from assms(1) have "inv1 (st\<lparr>fwds := (fwds st)(F := None)\<rparr>)"
    by (simp add: inv1_def)
  then show ?thesis using r by (rule reqdone_inv1)
qed

lemma gotresponse_inv1:
  assumes i: "inv1 st" and c: "callback_gotresponse e F buf st = Some (Inr (0, st'))"
  shows "inv1 st'"
proof -
  from c obtain f where f: "fwds st F = Some f" and
    x: "if buf then conns st (conn f) \<noteq> None \<and> wire_writepacket_ok e \<and>
                 st' = st\<lparr>fwds := (fwds st)(F \<mapsto> f\<lparr>P := Response\<rparr>)\<rparr>
     else (\<exists>st2. reqdone e (conn f) (st\<lparr>fwds := (fwds st)(F := None)\<rparr>) = Inr (0, st2) \<and>
             conns st2 (conn f) \<noteq> None \<and>
             stop_reading e (conn f) ((accept_stop st2)\<lparr>failed := True\<rparr>) =
               Some (Inr (0, st')))"
    by (rule gotresponse_Inr0)
  show ?thesis
  proof (cases buf)
    case True
    with x i show ?thesis by (simp add: inv1_def)
  next
    case False
    with x obtain st2 where
      r: "reqdone e (conn f) (st\<lparr>fwds := (fwds st)(F := None)\<rparr>) = Inr (0, st2)"
      and s: "stop_reading e (conn f) ((accept_stop st2)\<lparr>failed := True\<rparr>) =
               Some (Inr (0, st'))"
      by auto
    from i have "inv1 (st\<lparr>fwds := (fwds st)(F := None)\<rparr>)" by (simp add: inv1_def)
    from reqdone_inv1[OF this r] have "inv1 st2" .
    then have i3: "inv1 ((accept_stop st2)\<lparr>failed := True\<rparr>)"
      using linv_only_listen[OF accept_stop_only_listen, of st2]
            all_busy_only_listen[OF accept_stop_only_listen, of st2]
      by (simp add: inv1_def)
    show ?thesis
    proof (rule stop_reading_preserves[where I = inv1, OF _ s])
      fix S st st'
      assume "inv1 st" "readreq_cancel e S st = Inr (0, st')"
      then show "inv1 st'" by (rule readreq_cancel_inv1)
    next
      show "inv1 ((accept_stop st2)\<lparr>failed := True\<rparr>)" by (rule i3)
    qed
  qed
qed

lemma init_inv1:
  assumes "dispatch_init e socks maxconn = Some st"
  shows "inv1 st"
proof -
  define st0 where "st0 = \<lparr>sock_listen = map (\<lambda>s. \<lparr>L_s = s, accept_cookie = False\<rparr>) socks,
                  sock_active = 0, nsock_active = 0, nsock_active_max = maxconn,
                  failed = False, conns = Map.empty, fwds = Map.empty\<rparr>"
  from assms obtain rc where a: "accept_start e st0 = (rc, st)"
    by (auto simp: dispatch_init_def st0_def Let_def split: if_splits prod.splits)
  have "conn_list st0 []" by (simp add: conn_list_def st0_def)
  then have "linv st0" by (auto simp: linv_def st0_def)
  moreover have "all_busy st0" by (simp add: all_busy_def st0_def)
  ultimately show ?thesis
    using linv_only_listen[OF accept_start_only_listen[OF a]]
          all_busy_only_listen[OF accept_start_only_listen[OF a]]
    by (simp add: inv1_def)
qed

lemma reachable_inv1: "reachable st \<Longrightarrow> inv1 st"
proof (induction rule: reachable.induct)
  case (init e socks maxconn st)
  then show ?case by (rule init_inv1)
next
  case (step st ev e st')
  show ?case
  proof (cases ev)
    case (GotConn i s)
    with step show ?thesis by (auto intro: gotconn_inv1)
  next
    case (GotRequest S pkt)
    with step show ?thesis by (auto intro: gotrequest_inv1)
  next
    case (GotResponse F buf)
    with step show ?thesis by (auto intro: gotresponse_inv1)
  next
    case (WritResponse F w)
    with step show ?thesis by (auto intro: writresponse_inv1)
  qed
qed

subsection \<open>The list of connections after a callback that fails\<close>

text \<open>
  A callback that returns \<open>- 1\<close> leaves the list of connections and its counter in step
  as well: every exit of a callback is taken after the list and the counter have both
  been updated.
\<close>


lemma gotrequest_linv:
  assumes l: "linv st" and c: "callback_gotrequest e S pkt st = Inr (rc, st')"
  shows "linv st'"
proof -
  from c obtain r where r: "conns st S = Some r"
    by (auto simp: callback_gotrequest_def split: option.splits)
  define st1 where "st1 = st\<lparr>conns := (conns st)(S \<mapsto> r\<lparr>read_cookie := False\<rparr>)\<rparr>"
  have l1: "linv st1" unfolding st1_def by (rule linv_payload_upd[OF l r]) simp_all
  show ?thesis
  proof (cases pkt)
    case False
    show ?thesis
    proof (cases "nrequests r = 0")
      case True
      with c r False obtain rc2 where d: "dropconn e S st1 = Inr (rc2, st')"
        by (auto simp: callback_gotrequest_def st1_def Let_def split: sum.splits if_splits)
      from dropconn_pmap[OF l1 d] show ?thesis by simp
    next
      case nz: False
      with c r False have "st' = st1" by (auto simp: callback_gotrequest_def st1_def Let_def)
      with l1 show ?thesis by simp
    qed
  next
    case True
    define F where "F = mpool_forwardee_malloc e"
    define r2 where "r2 = r\<lparr>read_cookie := False, nrequests := nrequests r + 1\<rparr>"
    define st2 where "st2 = st1\<lparr>fwds := (fwds st1)(F \<mapsto> \<lparr>conn = S, P = Request\<rparr>),
                                   conns := (conns st1)(S \<mapsto> r2)\<rparr>"
    have "linv (st\<lparr>conns := (conns st)(S \<mapsto> r2)\<rparr>)"
      by (rule linv_payload_upd[OF l r]) (simp_all add: r2_def)
    then have l2: "linv st2" by (simp add: st2_def st1_def linv_def conn_list_def)
    have r2: "conns st2 S = Some r2" by (simp add: st2_def)
    show ?thesis
    proof (cases "F = 0")
      case True
      with c r \<open>pkt\<close> have "st' = st1"
        by (simp add: callback_gotrequest_def F_def st1_def Let_def)
      with l1 show ?thesis by simp
    next
      case F0: False
      show ?thesis
      proof (cases "wire_requestqueue_add_ok e")
        case False
        with c r \<open>pkt\<close> F0 have "st' = st2\<lparr>fwds := (fwds st2)(F := None)\<rparr>"
          by (simp add: callback_gotrequest_def F_def st1_def st2_def r2_def Let_def)
        with l2 show ?thesis by simp
      next
        case True
        with c r \<open>pkt\<close> F0 obtain rc3 where rr: "readreq e S st2 = Inr (rc3, st')"
          by (cases "readreq e S st2")
             (auto simp: callback_gotrequest_def F_def st1_def st2_def r2_def Let_def
                   split: if_splits)
        from rr obtain b where "st' = st2\<lparr>conns := (conns st2)(S \<mapsto> r2\<lparr>read_cookie := b\<rparr>)\<rparr>"
          using r2 by (auto elim!: readreq_Inr)
        moreover have "linv (st2\<lparr>conns := (conns st2)(S \<mapsto> r2\<lparr>read_cookie := b\<rparr>)\<rparr>)" for b
          by (rule linv_payload_upd[OF l2 r2]) simp_all
        ultimately show ?thesis by simp
      qed
    qed
  qed
qed

lemma gotconn_linv:
  assumes l: "linv st" and fresh: "malloc_S e = 0 \<or> conns st (malloc_S e) = None"
    and c: "callback_gotconn e i s st = Inr (rc, st')"
  shows "linv st'"
proof (cases "rc = 0")
  case True
  with gotconn_spec[OF l fresh] c show ?thesis by simp
next
  case rcn: False
  define S where "S = malloc_S e"
  define st1 where "st1 = st\<lparr>sock_listen :=
               (sock_listen st)[i := (sock_listen st ! i)\<lparr>accept_cookie := False\<rparr>]\<rparr>"
  define st2 where "st2 = accept_stop st1"
  define new where "new = \<lparr>next = 0, prev = 0, S_s = s, read_cookie = False, nrequests = 0\<rparr>"
  define st3 where "st3 = st2\<lparr>conns := (conns st2)(S \<mapsto> new)\<rparr>"
  have ol1: "only_listen st st1" by (simp add: st1_def only_listen_def)
  have ol2: "only_listen st st2"
    by (simp add: st2_def st1_def accept_stop_def only_listen_def)
  from c have i: "i < length (sock_listen st)"
    by (auto simp: callback_gotconn_def split: if_splits)
  have l1: "linv st1" using l linv_only_listen[OF ol1] by simp
  have l2: "linv st2" using l linv_only_listen[OF ol2] by simp
  have freed: "linv (x\<lparr>conns := (conns x)(S := None)\<rparr>)"
    if "conns x = (conns st)(S \<mapsto> y)" "sock_active x = sock_active st"
       "nsock_active x = nsock_active st" "S \<noteq> 0" for x y
  proof -
    from fresh that(4) have "conns st S = None" by (simp add: S_def)
    then have "(conns x)(S := None) = conns st" using that(1) by (auto simp: fun_eq_iff)
    with that(2,3) l show ?thesis
      by (simp add: linv_def conn_list_def)
  qed
  show ?thesis
  proof (cases "s = - 1")
    case True
    with c i have "st' = st1" by (simp add: callback_gotconn_def st1_def Let_def)
    with l1 show ?thesis by simp
  next
    case s: False
    show ?thesis
    proof (cases "S = 0")
      case True
      with c i s have "st' = st2"
        by (simp add: callback_gotconn_def st1_def st2_def S_def Let_def)
      with l2 show ?thesis by simp
    next
      case S0: False
      have c3: "conns st3 = (conns st)(S \<mapsto> new)" "sock_active st3 = sock_active st"
        "nsock_active st3 = nsock_active st"
        using ol2 by (simp_all add: st3_def only_listen_def)
      show ?thesis
      proof (cases "fcntl_ok e \<and> netbuf_write_init_ok e \<and> netbuf_read_init_ok e")
        case False
        with c i s S0 have "st' = st3\<lparr>conns := (conns st3)(S := None)\<rparr>"
          by (auto simp: callback_gotconn_def st1_def st2_def st3_def new_def S_def Let_def
                   split: if_splits)
        with freed[OF c3 S0] show ?thesis by simp
      next
        case ok: True
        from c i s S0 ok obtain rc4 st4 where rr: "readreq e S st3 = Inr (rc4, st4)"
          by (cases "readreq e S st3")
             (auto simp: callback_gotconn_def Let_def S_def st1_def st2_def st3_def new_def)
        from rr obtain b where st4: "st4 = st3\<lparr>conns := (conns st3)(S \<mapsto> new\<lparr>read_cookie := b\<rparr>)\<rparr>"
          by (auto elim!: readreq_Inr simp: st3_def)
        have c4: "conns st4 = (conns st)(S \<mapsto> new\<lparr>read_cookie := b\<rparr>)"
          "sock_active st4 = sock_active st" "nsock_active st4 = nsock_active st"
          using c3 by (simp_all add: st4)
        show ?thesis
        proof (cases "rc4 = 0")
          case False
          with c i s S0 ok rr have "st' = st4\<lparr>conns := (conns st4)(S := None)\<rparr>"
            by (simp add: callback_gotconn_def Let_def S_def st1_def st2_def st3_def new_def)
          with freed[OF c4 S0] show ?thesis by simp
        next
          case rc40: True
          from c i s S0 ok rr rc40 obtain st7 where lh: "link_head S st4 = Inr st7"
            by (cases "link_head S st4")
               (auto simp: callback_gotconn_def Let_def S_def st1_def st2_def st3_def new_def)
          define st8 where "st8 = st7\<lparr>nsock_active := nsock_active st7 + 1\<rparr>"
          from c i s S0 ok rr rc40 lh rcn obtain rc9 where
            a: "accept_start e st8 = (rc9, st')"
            by (auto simp: callback_gotconn_def Let_def S_def st1_def st2_def st3_def new_def
                     st8_def split: if_splits prod.splits)
          from l obtain xs where cl: "conn_list st xs"
            and n: "unat (nsock_active st) = length xs"
            by (auto simp: linv_def)
          from fresh S0 have Sf: "conns st S = None" by (simp add: S_def)
          with cl have Sx: "S \<notin> set xs" by (auto simp: conn_list_def)
          from cl have dist: "distinct xs" and seg: "dseg (conns st) 0 (sock_active st) xs 0"
            and dom: "set xs = dom (conns st)"
            by (auto simp: conn_list_def)
          have seg4: "dseg (conns st4) 0 (sock_active st4) xs 0"
            using seg Sx by (simp add: c4 dseg_upd_notin)
          have S4: "conns st4 S = Some (new\<lparr>read_cookie := b\<rparr>)" by (simp add: c4)
          from link_head_spec[OF seg4 dist S4 Sx S0] lh obtain h' where
            st7: "st7 = st4\<lparr>sock_active := S, conns := h'\<rparr>"
            and seg7: "dseg h' 0 S (S # xs) 0" and pe: "heap_payload_eq (conns st4) h'"
            by (auto simp: new_def)
          have cl8: "conn_list st8 (S # xs)"
            using seg7 dist Sx dom heap_payload_eq_dom[OF pe]
            by (auto simp: conn_list_def st8_def st7 c4)
          have "distinct (S # xs)" "0 \<notin> set (S # xs)"
            using dist Sx dseg_nonzero[OF seg7] by auto
          then have "length (S # xs) < 2 ^ 64" by (rule distinct_nonzero_length)
          then have "unat (nsock_active st) < 2 ^ 64 - 1" using n by simp
          then have n8: "unat (nsock_active st8) = length (S # xs)"
            using n by (simp add: st8_def st7 c4 unat_inc)
          from cl8 n8 have "linv st8" unfolding linv_def by blast
          with linv_only_listen[OF accept_start_only_listen[OF a]] show ?thesis by simp
        qed
      qed
    qed
  qed
qed

lemma stop_reading_linv_aux:
  assumes "stop_reading e S st = Some y"
  shows "linv st \<longrightarrow> (\<forall>rc st'. y = Inr (rc, st') \<longrightarrow> linv st')"
proof (rule stop_reading.raw_induct
         [where P = "\<lambda>e S st y. linv st \<longrightarrow> (\<forall>rc st'. y = Inr (rc, st') \<longrightarrow> linv st')",
          OF _ assms])
  fix rec :: "env \<Rightarrow> addr \<Rightarrow> dispatch_state \<Rightarrow> (fault + int \<times> dispatch_state) option"
    and e S st y
  assume IH: "\<And>e S st y. rec e S st = Some y \<Longrightarrow>
            linv st \<longrightarrow> (\<forall>rc st'. y = Inr (rc, st') \<longrightarrow> linv st')"
    and eq: "(if S = 0 then Some (Inr (0, st))
      else case conns st S of None \<Rightarrow> Some (Inl BadPointer)
           | Some r \<Rightarrow>
               let S_next = next r
               in if read_cookie r
                  then case readreq_cancel e S st of Inl f \<Rightarrow> Some (Inl f)
                       | Inr (rc, st1) \<Rightarrow>
                           if rc \<noteq> 0 then Some (Inr (- 1, st1))
                           else rec e S_next st1
                  else rec e S_next st) = Some y"
  show "linv st \<longrightarrow> (\<forall>rc st'. y = Inr (rc, st') \<longrightarrow> linv st')"
  proof (intro impI allI)
    fix rc st'
    assume l: "linv st" and y: "y = Inr (rc, st')"
    show "linv st'"
    proof (cases "S = 0")
      case True
      with eq y l show ?thesis by simp
    next
      case False
      with eq y obtain r where r: "conns st S = Some r"
        by (auto split: option.splits)
      show ?thesis
      proof (cases "read_cookie r")
        case nr: False
        with eq False r have "rec e (next r) st = Some y" by (simp add: Let_def)
        from IH[OF this] l y show ?thesis by blast
      next
        case True
        with eq y False r obtain rc1 st1 where c1: "readreq_cancel e S st = Inr (rc1, st1)"
          by (cases "readreq_cancel e S st") (auto simp: Let_def)
        from readreq_cancel_spec[OF l c1] have l1: "linv st1" by simp
        show ?thesis
        proof (cases "rc1 = 0")
          case rc0: True
          with eq False r True c1 have "rec e (next r) st1 = Some y" by (simp add: Let_def)
          from IH[OF this] l1 y show ?thesis by blast
        next
          case rcn: False
          with eq False r True c1 y have "st' = st1" by (simp add: Let_def)
          with l1 show ?thesis by simp
        qed
      qed
    qed
  qed
qed

lemma gotresponse_linv:
  assumes l: "linv st" and c: "callback_gotresponse e F buf st = Some (Inr (rc, st'))"
  shows "linv st'"
proof -
  from c obtain f where f: "fwds st F = Some f"
    by (auto simp: callback_gotresponse_def split: option.splits)
  show ?thesis
  proof (cases buf)
    case True
    with c f have "\<exists>x. st' = st\<lparr>fwds := x\<rparr>"
      by (auto simp: callback_gotresponse_def Let_def split: option.splits if_splits)
    with l show ?thesis by auto
  next
    case False
    define st1 where "st1 = st\<lparr>fwds := (fwds st)(F := None)\<rparr>"
    have l1: "linv st1" using l by (simp add: st1_def)
    from c f False obtain rc2 st2 where r: "reqdone e (conn f) st1 = Inr (rc2, st2)"
      by (cases "reqdone e (conn f) st1")
         (auto simp: callback_gotresponse_def Let_def st1_def)
    from reqdone_spec[OF l1 r] have l2: "linv st2" by simp
    show ?thesis
    proof (cases "rc2 = 0")
      case nz: False
      with c f False r have "st' = st2"
        by (simp add: callback_gotresponse_def Let_def st1_def)
      with l2 show ?thesis by simp
    next
      case True
      with c f False r obtain r2 where "conns st2 (conn f) = Some r2"
        by (cases "conns st2 (conn f)")
           (auto simp: callback_gotresponse_def Let_def st1_def)
      with c f False r True
      have s: "stop_reading e (conn f) ((accept_stop st2)\<lparr>failed := True\<rparr>) =
                 Some (Inr (rc, st'))"
        by (simp add: callback_gotresponse_def Let_def st1_def)
      have "linv ((accept_stop st2)\<lparr>failed := True\<rparr>)"
        using l2 linv_only_listen[OF accept_stop_only_listen, of st2] by simp
      with stop_reading_linv_aux[OF s] show ?thesis by blast
    qed
  qed
qed

lemma writresponse_linv:
  assumes l: "linv st" and c: "callback_writresponse e F w st = Inr (rc, st')"
  shows "linv st'"
proof -
  from c obtain f where f: "fwds st F = Some f"
    by (auto simp: callback_writresponse_def split: option.splits)
  define st1 where "st1 = st\<lparr>fwds := (fwds st)(F := None)\<rparr>"
  have l1: "linv st1" using l by (simp add: st1_def)
  from c f obtain rc2 st2 where r: "reqdone e (conn f) st1 = Inr (rc2, st2)"
    by (cases "reqdone e (conn f) st1")
       (auto simp: callback_writresponse_def Let_def st1_def)
  with c f have "st' = st2"
    by (auto simp: callback_writresponse_def Let_def st1_def split: if_splits)
  with reqdone_spec[OF l1 r] show ?thesis by simp
qed

lemma reachable_any_linv: "reachable_any st \<Longrightarrow> linv st"
proof (induction rule: reachable_any.induct)
  case (init_any e socks maxconn st)
  then show ?case using init_inv1 by (simp add: inv1_def)
next
  case (step_any st ev e rc st')
  show ?case
  proof (cases ev)
    case (GotConn i s)
    with step_any show ?thesis by (auto simp: alloc_fresh_def intro: gotconn_linv)
  next
    case (GotRequest S pkt)
    with step_any show ?thesis by (auto intro: gotrequest_linv)
  next
    case (GotResponse F buf)
    with step_any show ?thesis by (auto intro: gotresponse_linv)
  next
    case (WritResponse F w)
    with step_any show ?thesis by (auto intro: writresponse_linv)
  qed
qed

lemma reachable_reachable_any: "reachable st \<Longrightarrow> reachable_any st"
  by (induction rule: reachable.induct) (auto intro: reachable_any.intros)


subsection \<open>Admission of connections\<close>

lemma word_dec_less:
  fixes n m :: size_t
  assumes "n \<noteq> 0" "n \<le> m"
  shows "n - 1 < m"
proof -
  from assms(1) have "unat (n - 1) = unat n - 1" by (rule unat_minus_one)
  moreover from assms(1) have "0 < unat n" by (simp add: unat_gt_0)
  moreover from assms(2) have "unat n \<le> unat m" by (simp add: word_le_nat_alt)
  ultimately show ?thesis by (simp add: word_less_nat_alt)
qed

lemma linv_nonzero:
  assumes "linv st" "conns st S = Some r"
  shows "nsock_active st \<noteq> 0"
proof -
  from assms obtain xs where "conn_list st xs" "unat (nsock_active st) = length xs"
    by (auto simp: linv_def)
  moreover with assms(2) have "S \<in> set xs" by (auto simp: conn_list_def)
  ultimately have "unat (nsock_active st) \<noteq> 0" by auto
  then show ?thesis by (auto simp: unat_eq_0)
qed

lemma ainv_dropped:
  assumes a: "ainv st" and n: "nsock_active st \<noteq> 0" and d: "dropped st st'"
    and c: "nsock_active_max st' = nsock_active_max st" "failed st' = failed st"
  shows "ainv st'"
proof -
  from a have le: "nsock_active st \<le> nsock_active_max st" by (simp add: ainv_def)
  from d have n': "nsock_active st' = nsock_active st - 1" by (simp add: dropped_def)
  from word_dec_less[OF n le] have lt: "nsock_active st' < nsock_active_max st'"
    by (simp add: n' c)
  show ?thesis
  proof (cases "nsock_active st = nsock_active_max st")
    case True
    with d have "list_all accept_cookie (sock_listen st')" by (simp add: dropped_def)
    with lt show ?thesis by (simp add: ainv_def)
  next
    case False
    with d have l: "sock_listen st' = sock_listen st" by (simp add: dropped_def)
    from False le have "nsock_active st < nsock_active_max st" by simp
    with a lt l c show ?thesis by (simp add: ainv_def)
  qed
qed

lemma ainv_kept:
  assumes "ainv st" "kept st st'"
    "nsock_active_max st' = nsock_active_max st" "failed st' = failed st"
  shows "ainv st'"
  using assms by (simp add: ainv_def kept_def)

lemma readreq_cancel_inv2:
  assumes i: "inv2 st" and c: "readreq_cancel e S st = Inr (0, st')"
  shows "inv2 st'"
proof -
  from i have l: "linv st" by (simp add: inv2_def)
  from readreq_cancel_spec0[OF l c] obtain s rd n where l': "linv st'"
    and cfg: "same_config st st'" and p: "pmap st S = Some (s, rd, n)"
    and dk: "if n = 0 then dropped st st' else kept st st'"
    by (auto split: if_splits)
  from p obtain r where r: "conns st S = Some r" by (auto simp: pmap_Some)
  have "ainv st'" if m: "nsock_active_max st \<noteq> 0"
  proof -
    from i m have a: "ainv st" by (simp add: inv2_def)
    show ?thesis
    proof (cases "n = 0")
      case True
      with dk have "dropped st st'" by simp
      with a linv_nonzero[OF l r] cfg show ?thesis
        by (auto intro: ainv_dropped simp: same_config_def)
    next
      case False
      with dk have "kept st st'" by simp
      with a cfg show ?thesis by (auto intro: ainv_kept simp: same_config_def)
    qed
  qed
  with l' cfg show ?thesis by (simp add: inv2_def same_config_def)
qed

lemma reqdone_inv2:
  assumes i: "inv2 st" and c: "reqdone e S st = Inr (0, st')"
  shows "inv2 st'"
proof -
  from i have l: "linv st" by (simp add: inv2_def)
  from reqdone_spec0[OF l c] obtain s rd n where l': "linv st'"
    and cfg: "same_config st st'" and p: "pmap st S = Some (s, rd, n)"
    and dk: "if n - 1 = 0 \<and> \<not> rd then dropped st st' else kept st st'"
    by (auto split: if_splits)
  from p obtain r where r: "conns st S = Some r" by (auto simp: pmap_Some)
  have "ainv st'" if m: "nsock_active_max st \<noteq> 0"
  proof -
    from i m have a: "ainv st" by (simp add: inv2_def)
    show ?thesis
    proof (cases "n - 1 = 0 \<and> \<not> rd")
      case True
      with dk have "dropped st st'" by simp
      with a linv_nonzero[OF l r] cfg show ?thesis
        by (auto intro: ainv_dropped simp: same_config_def)
    next
      case False
      with dk have "kept st st'" by auto
      with a cfg show ?thesis by (auto intro: ainv_kept simp: same_config_def)
    qed
  qed
  with l' cfg show ?thesis by (simp add: inv2_def same_config_def)
qed

lemma inv2_fwds [simp]: "inv2 (st\<lparr>fwds := x\<rparr>) = inv2 st"
  by (simp add: inv2_def ainv_def)

lemma gotrequest_dropped:
  assumes c: "callback_gotrequest e S False st = Inr (0, st')" and r: "conns st S = Some r"
  shows "if nrequests r = 0 then dropped st st' else kept st st'"
proof -
  define st1 where "st1 = st\<lparr>conns := (conns st)(S \<mapsto> r\<lparr>read_cookie := False\<rparr>)\<rparr>"
  show ?thesis
  proof (cases "nrequests r = 0")
    case True
    with c r have "dropconn e S st1 = Inr (0, st')"
      by (auto simp: callback_gotrequest_def st1_def Let_def split: sum.splits if_splits)
    from dropconn_dropped[OF this] True show ?thesis by (simp add: st1_def dropped_upd)
  next
    case False
    with c r have "st' = st1" by (auto simp: callback_gotrequest_def st1_def Let_def)
    with False show ?thesis by (simp add: kept_def st1_def)
  qed
qed

lemma gotrequest_inv2:
  assumes i: "inv2 st" and c: "callback_gotrequest e S pkt st = Inr (0, st')"
  shows "inv2 st'"
proof -
  from i have l: "linv st" by (simp add: inv2_def)
  from gotrequest_spec[OF l c] obtain s rd n where l': "linv st'"
    and cfg: "nsock_active_max st' = nsock_active_max st" "failed st' = failed st"
    and p: "pmap st S = Some (s, rd, n)"
    and k: "pkt \<longrightarrow> sock_listen st' = sock_listen st \<and> nsock_active st' = nsock_active st"
    by (auto split: if_splits)
  from p obtain r where r: "conns st S = Some r" and nr: "nrequests r = n"
    by (auto simp: pmap_Some)
  have "ainv st'" if m: "nsock_active_max st \<noteq> 0"
  proof -
    from i m have a: "ainv st" by (simp add: inv2_def)
    show ?thesis
    proof (cases pkt)
      case True
      with k have "kept st st'" by (simp add: kept_def)
      with a cfg show ?thesis by (auto intro: ainv_kept)
    next
      case False
      with c have "callback_gotrequest e S False st = Inr (0, st')" by simp
      from gotrequest_dropped[OF this r]
      have dk: "if nrequests r = 0 then dropped st st' else kept st st'" .
      show ?thesis
      proof (cases "nrequests r = 0")
        case True
        with dk a linv_nonzero[OF l r] cfg show ?thesis by (auto intro: ainv_dropped)
      next
        case nz: False
        with dk a cfg show ?thesis by (auto intro: ainv_kept)
      qed
    qed
  qed
  with l' cfg show ?thesis by (simp add: inv2_def)
qed

lemma gotconn_inv2:
  assumes i: "inv2 st" and f: "alloc_fresh e st" and p: "pending st (GotConn i' s)"
    and c: "callback_gotconn e i' s st = Inr (0, st')"
  shows "inv2 st'"
proof -
  from i have l: "linv st" by (simp add: inv2_def)
  from f have fr: "malloc_S e = 0 \<or> conns st (malloc_S e) = None"
    by (simp add: alloc_fresh_def)
  from gotconn_spec[OF l fr c] have l': "linv st'"
    and cfg: "nsock_active_max st' = nsock_active_max st" "failed st' = failed st"
    and n': "nsock_active st' = nsock_active st + 1"
    and li: "if nsock_active st + 1 < nsock_active_max st
          then list_all accept_cookie (sock_listen st')
          else \<not> list_ex accept_cookie (sock_listen st')"
    by auto
  from p have "sock_listen st ! i' \<in> set (sock_listen st)" "accept_cookie (sock_listen st ! i')"
    by simp_all
  then have armed: "list_ex accept_cookie (sock_listen st)"
    unfolding list_ex_iff by blast
  have "ainv st'" if m: "nsock_active_max st \<noteq> 0"
  proof -
    from i m have a: "ainv st" by (simp add: inv2_def)
    with armed have lt: "nsock_active st < nsock_active_max st" by (simp add: ainv_def)
    then have le: "nsock_active st + 1 \<le> nsock_active_max st" by (rule inc_le)
    with li show ?thesis by (auto simp: ainv_def n' cfg split: if_splits)
  qed
  with l' cfg show ?thesis by (simp add: inv2_def)
qed

lemma inv2_accept_stop_failed:
  assumes "inv2 st"
  shows "inv2 ((accept_stop st)\<lparr>failed := True\<rparr>)"
proof -
  have ol: "only_listen st (accept_stop st)" by (rule accept_stop_only_listen)
  have none: "\<not> list_ex accept_cookie (sock_listen (accept_stop st))" by (rule accept_stop_none)
  from assms ol have "linv ((accept_stop st)\<lparr>failed := True\<rparr>)"
    by (simp add: inv2_def linv_only_listen)
  moreover from assms ol none have "nsock_active_max st \<noteq> 0 \<longrightarrow> ainv ((accept_stop st)\<lparr>failed := True\<rparr>)"
    by (simp add: inv2_def ainv_def only_listen_def)
  ultimately show ?thesis using ol by (simp add: inv2_def only_listen_def)
qed

lemma writresponse_inv2:
  assumes "inv2 st" "callback_writresponse e F w st = Inr (0, st')"
  shows "inv2 st'"
proof -
  from assms(2) obtain f where "fwds st F = Some f" and
    r: "reqdone e (conn f) (st\<lparr>fwds := (fwds st)(F := None)\<rparr>) = Inr (0, st')"
    by (rule writresponse_Inr0)
  from assms(1) have "inv2 (st\<lparr>fwds := (fwds st)(F := None)\<rparr>)" by simp
  then show ?thesis using r by (rule reqdone_inv2)
qed

lemma gotresponse_inv2:
  assumes i: "inv2 st" and c: "callback_gotresponse e F buf st = Some (Inr (0, st'))"
  shows "inv2 st'"
proof -
  from c obtain f where f: "fwds st F = Some f" and
    x: "if buf then conns st (conn f) \<noteq> None \<and> wire_writepacket_ok e \<and>
                 st' = st\<lparr>fwds := (fwds st)(F \<mapsto> f\<lparr>P := Response\<rparr>)\<rparr>
     else (\<exists>st2. reqdone e (conn f) (st\<lparr>fwds := (fwds st)(F := None)\<rparr>) = Inr (0, st2) \<and>
             conns st2 (conn f) \<noteq> None \<and>
             stop_reading e (conn f) ((accept_stop st2)\<lparr>failed := True\<rparr>) =
               Some (Inr (0, st')))"
    by (rule gotresponse_Inr0)
  show ?thesis
  proof (cases buf)
    case True
    with x i show ?thesis by simp
  next
    case False
    with x obtain st2 where
      r: "reqdone e (conn f) (st\<lparr>fwds := (fwds st)(F := None)\<rparr>) = Inr (0, st2)"
      and s: "stop_reading e (conn f) ((accept_stop st2)\<lparr>failed := True\<rparr>) =
               Some (Inr (0, st'))"
      by auto
    from i have "inv2 (st\<lparr>fwds := (fwds st)(F := None)\<rparr>)" by simp
    from reqdone_inv2[OF this r] have "inv2 st2" .
    then have i3: "inv2 ((accept_stop st2)\<lparr>failed := True\<rparr>)"
      by (rule inv2_accept_stop_failed)
    show ?thesis
    proof (rule stop_reading_preserves[where I = inv2, OF _ s])
      fix S st st'
      assume "inv2 st" "readreq_cancel e S st = Inr (0, st')"
      then show "inv2 st'" by (rule readreq_cancel_inv2)
    next
      show "inv2 ((accept_stop st2)\<lparr>failed := True\<rparr>)" by (rule i3)
    qed
  qed
qed

lemma init_inv2:
  assumes "dispatch_init e socks maxconn = Some st"
  shows "inv2 st"
proof -
  define st0 where "st0 = \<lparr>sock_listen = map (\<lambda>s. \<lparr>L_s = s, accept_cookie = False\<rparr>) socks,
                  sock_active = 0, nsock_active = 0, nsock_active_max = maxconn,
                  failed = False, conns = Map.empty, fwds = Map.empty\<rparr>"
  from assms obtain rc where a: "accept_start e st0 = (rc, st)"
    by (auto simp: dispatch_init_def st0_def Let_def split: if_splits prod.splits)
  with assms have rc: "rc = 0"
    by (auto simp: dispatch_init_def st0_def Let_def split: if_splits)
  from init_inv1[OF assms] have l: "linv st" by (simp add: inv1_def)
  from accept_start_only_listen[OF a] have ol: "only_listen st0 st" .
  from accept_start_0[OF a[unfolded rc]] have all: "list_all accept_cookie (sock_listen st)"
    by simp
  from ol have "nsock_active st = 0" "nsock_active_max st = maxconn" "failed st = False"
    by (simp_all add: only_listen_def st0_def)
  with all have "nsock_active_max st \<noteq> 0 \<longrightarrow> ainv st"
    by (simp add: ainv_def word_neq_0_conv)
  with l show ?thesis by (simp add: inv2_def)
qed

lemma reachable_inv2: "reachable st \<Longrightarrow> inv2 st"
proof (induction rule: reachable.induct)
  case (init e socks maxconn st)
  then show ?case by (rule init_inv2)
next
  case (step st ev e st')
  show ?case
  proof (cases ev)
    case (GotConn i s)
    with step show ?thesis by (auto intro: gotconn_inv2)
  next
    case (GotRequest S pkt)
    with step show ?thesis by (auto intro: gotrequest_inv2)
  next
    case (GotResponse F buf)
    with step show ?thesis by (auto intro: gotresponse_inv2)
  next
    case (WritResponse F w)
    with step show ?thesis by (auto intro: writresponse_inv2)
  qed
qed


subsection \<open>Counting the requests in flight\<close>

lemma in_flight_fwds: "fwds st' = fwds st \<Longrightarrow> in_flight st' S = in_flight st S"
  by (simp add: in_flight_def)

lemma in_flight_zero:
  "in_flight st S = 0 \<longleftrightarrow> (\<forall>F f. fwds st F = Some f \<longrightarrow> conn f \<noteq> S)"
proof -
  have "finite {F. \<exists>f. fwds st F = Some f \<and> conn f = S}" by simp
  then have "in_flight st S = 0 \<longleftrightarrow> {F. \<exists>f. fwds st F = Some f \<and> conn f = S} = {}"
    by (simp add: in_flight_def)
  then show ?thesis by auto
qed

lemma in_flight_del:
  assumes "fwds st F = Some f"
  shows "in_flight (st\<lparr>fwds := (fwds st)(F := None)\<rparr>) S =
           (if conn f = S then in_flight st S - 1 else in_flight st S)"
    and "0 < in_flight st (conn f)"
proof -
  let ?A = "{F'. \<exists>f'. fwds st F' = Some f' \<and> conn f' = S}"
  have eq: "{F'. \<exists>f'. ((fwds st)(F := None)) F' = Some f' \<and> conn f' = S} = ?A - {F}"
    by auto
  have fin: "finite ?A" by simp
  show "in_flight (st\<lparr>fwds := (fwds st)(F := None)\<rparr>) S =
           (if conn f = S then in_flight st S - 1 else in_flight st S)"
  proof (cases "conn f = S")
    case True
    with assms have "F \<in> ?A" by auto
    with fin have "card (?A - {F}) = card ?A - 1" by simp
    with True eq show ?thesis by (simp add: in_flight_def)
  next
    case False
    with assms have "F \<notin> ?A" by auto
    then have "?A - {F} = ?A" by auto
    with False eq show ?thesis by (simp add: in_flight_def)
  qed
  from assms have "in_flight st (conn f) \<noteq> 0" unfolding in_flight_zero by blast
  then show "0 < in_flight st (conn f)" by simp
qed

lemma in_flight_add:
  assumes "fwds st F = None"
  shows "in_flight (st\<lparr>fwds := (fwds st)(F \<mapsto> f)\<rparr>) S =
           (if conn f = S then in_flight st S + 1 else in_flight st S)"
proof -
  let ?A = "{F'. \<exists>f'. fwds st F' = Some f' \<and> conn f' = S}"
  from assms have notin: "F \<notin> ?A" by auto
  have fin: "finite ?A" by simp
  show ?thesis
  proof (cases "conn f = S")
    case True
    then have "{F'. \<exists>f'. ((fwds st)(F \<mapsto> f)) F' = Some f' \<and> conn f' = S} = insert F ?A"
      by auto
    with True notin fin show ?thesis by (simp add: in_flight_def)
  next
    case False
    with assms have "{F'. \<exists>f'. ((fwds st)(F \<mapsto> f)) F' = Some f' \<and> conn f' = S} = ?A"
      by auto
    with False show ?thesis by (simp add: in_flight_def)
  qed
qed

lemma in_flight_upd:
  assumes "fwds st F = Some f" "conn f' = conn f"
  shows "in_flight (st\<lparr>fwds := (fwds st)(F \<mapsto> f')\<rparr>) S = in_flight st S"
proof -
  from assms have "{F'. \<exists>f''. ((fwds st)(F \<mapsto> f')) F' = Some f'' \<and> conn f'' = S} =
        {F'. \<exists>f''. fwds st F' = Some f'' \<and> conn f'' = S}"
    by auto
  then show ?thesis by (simp add: in_flight_def)
qed

lemma in_flight_bound:
  assumes "fwds st 0 = None" "fwds st F = None" "F \<noteq> 0"
  shows "in_flight st S < 2 ^ 64 - 1"
proof -
  let ?A = "{F'. \<exists>f'. fwds st F' = Some f' \<and> conn f' = S}"
  from assms have "0 \<notin> ?A" "F \<notin> ?A" by auto
  with assms(3) have "card (insert 0 (insert F ?A)) = Suc (Suc (card ?A))" by simp
  moreover have "card (insert 0 (insert F ?A)) \<le> card (UNIV :: addr set)"
    by (rule card_mono) auto
  moreover have "card (UNIV :: addr set) = 2 ^ 64" by (simp add: card_word)
  ultimately show ?thesis by (simp add: in_flight_def)
qed

lemma finv_flag:
  assumes "finv st" "pmap st S = Some (s, rd, n)" "pmap st' = (pmap st)(S \<mapsto> (s', rd', n))"
    "fwds st' = fwds st"
  shows "finv st'"
  using assms in_flight_fwds[OF assms(4)]
  by (auto simp: finv_def)

lemma finv_remove:
  assumes "finv st" "pmap st S = Some (s, rd, 0)" "pmap st' = (pmap st)(S := None)"
    "fwds st' = fwds st"
  shows "finv st'"
proof -
  from assms(1,2) have "unat (0 :: size_t) = in_flight st S" unfolding finv_def by blast
  then have "in_flight st S = 0" by simp
  then have "\<forall>F f. fwds st F = Some f \<longrightarrow> conn f \<noteq> S" by (simp add: in_flight_zero)
  with assms in_flight_fwds[OF assms(4)] show ?thesis
    by (auto simp: finv_def)
qed

lemma finv_only_listen: "only_listen st st' \<Longrightarrow> finv st' = finv st"
  by (simp add: finv_def only_listen_def pmap_def in_flight_def)

lemma finv_failed [simp]: "finv (st\<lparr>failed := x\<rparr>) = finv st"
  by (simp add: finv_def pmap_def in_flight_def)

lemma readreq_cancel_inv3:
  assumes i: "inv3 st" and c: "readreq_cancel e S st = Inr (0, st')"
  shows "inv3 st'"
proof -
  from i have l: "linv st" and f: "finv st" by (simp_all add: inv3_def)
  from readreq_cancel_spec0[OF l c] obtain s rd n where l': "linv st'"
    and cfg: "same_config st st'" and p: "pmap st S = Some (s, rd, n)"
    and p': "pmap st' = (if n = 0 then (pmap st)(S := None) else (pmap st)(S \<mapsto> (s, False, n)))"
    by (auto split: if_splits)
  from cfg have fw: "fwds st' = fwds st" by (simp add: same_config_def)
  have "finv st'"
  proof (cases "n = 0")
    case True
    with p p' fw f show ?thesis by (auto intro: finv_remove)
  next
    case False
    with p p' fw f show ?thesis by (auto intro: finv_flag)
  qed
  with l' show ?thesis by (simp add: inv3_def)
qed

lemma free_reqdone_inv3:
  assumes i: "inv3 st" and F: "fwds st F = Some f"
    and c: "reqdone e (conn f) (st\<lparr>fwds := (fwds st)(F := None)\<rparr>) = Inr (0, st')"
  shows "inv3 st'"
proof -
  define S where "S = conn f"
  define st1 where "st1 = st\<lparr>fwds := (fwds st)(F := None)\<rparr>"
  from i have l: "linv st" and fi: "finv st" by (simp_all add: inv3_def)
  have l1: "linv st1" using l by (simp add: st1_def)
  from reqdone_spec0[OF l1 c[folded st1_def S_def]] obtain s rd n where l': "linv st'"
    and cfg: "same_config st1 st'" and p: "pmap st S = Some (s, rd, n)"
    and p': "pmap st' = (if n - 1 = 0 \<and> \<not> rd then (pmap st)(S := None)
                         else (pmap st)(S \<mapsto> (s, rd, n - 1)))"
    by (auto simp: st1_def split: if_splits)
  from cfg have fw: "fwds st' = (fwds st)(F := None)" by (simp add: same_config_def st1_def)
  have cnt: "in_flight st' X = (if X = S then in_flight st S - 1 else in_flight st X)" for X
    using in_flight_del(1)[OF F, of X] in_flight_fwds[of st' st1 X] fw
    by (auto simp: st1_def S_def)
  from in_flight_del(2)[OF F] have pos: "0 < in_flight st S" by (simp add: S_def)
  from fi p have n: "unat n = in_flight st S" unfolding finv_def by blast
  with pos have n0: "n \<noteq> 0" by (auto simp: unat_eq_0[symmetric] simp del: unat_eq_0)
  then have n1: "unat (n - 1) = in_flight st S - 1" using n by (simp add: unat_minus_one)
  from fi F have F0: "F \<noteq> 0" by (auto simp: finv_def)
  have a: "fwds st' 0 = None" using fi fw by (simp add: finv_def)
  have b: "pmap st' (conn f') \<noteq> None" if "fwds st' F' = Some f'" for F' f'
  proof -
    from that fw have old: "fwds st F' = Some f'" by (auto split: if_splits)
    with fi have live: "pmap st (conn f') \<noteq> None" unfolding finv_def by blast
    show ?thesis
    proof (cases "conn f' = S \<and> n - 1 = 0 \<and> \<not> rd")
      case True
      with n1 cnt[of S] have "in_flight st' S = 0" by (simp add: unat_eq_0)
      with that True show ?thesis unfolding in_flight_zero by blast
    next
      case False
      with live p' show ?thesis by auto
    qed
  qed
  have c': "unat m = in_flight st' X" if "pmap st' X = Some (s', rd', m)" for X s' rd' m
  proof (cases "X = S")
    case True
    with that p' have "m = n - 1" by (auto split: if_splits)
    with True n1 cnt[of S] show ?thesis by simp
  next
    case False
    with that p' have "pmap st X = Some (s', rd', m)" by (auto split: if_splits)
    with fi have "unat m = in_flight st X" unfolding finv_def by blast
    with False cnt[of X] show ?thesis by simp
  qed
  from a b c' have "finv st'" unfolding finv_def by blast
  with l' show ?thesis by (simp add: inv3_def)
qed

lemma gotrequest_inv3:
  assumes i: "inv3 st" and fr: "alloc_fresh e st"
    and c: "callback_gotrequest e S pkt st = Inr (0, st')"
  shows "inv3 st'"
proof -
  from i have l: "linv st" and fi: "finv st" by (simp_all add: inv3_def)
  from gotrequest_spec[OF l c] obtain s rd n where l': "linv st'"
    and p: "pmap st S = Some (s, rd, n)"
    and x: "if pkt then mpool_forwardee_malloc e \<noteq> 0 \<and>
                  fwds st' = (fwds st)(mpool_forwardee_malloc e \<mapsto> \<lparr>conn = S, P = Request\<rparr>) \<and>
                  pmap st' = (pmap st)(S \<mapsto> (s, True, n + 1))
             else fwds st' = fwds st \<and>
                  pmap st' = (if n = 0 then (pmap st)(S := None)
                              else (pmap st)(S \<mapsto> (s, False, n)))"
    by (auto split: if_splits)
  have "finv st'"
  proof (cases pkt)
    case False
    with x have fw: "fwds st' = fwds st" and
      p': "pmap st' = (if n = 0 then (pmap st)(S := None) else (pmap st)(S \<mapsto> (s, False, n)))"
      by simp_all
    show ?thesis
    proof (cases "n = 0")
      case True
      with p p' fw fi show ?thesis by (auto intro: finv_remove)
    next
      case nz: False
      with p p' fw fi show ?thesis by (auto intro: finv_flag)
    qed
  next
    case True
    define F where "F = mpool_forwardee_malloc e"
    from True x have F0: "F \<noteq> 0"
      and fw: "fwds st' = (fwds st)(F \<mapsto> \<lparr>conn = S, P = Request\<rparr>)"
      and p': "pmap st' = (pmap st)(S \<mapsto> (s, True, n + 1))"
      by (simp_all add: F_def)
    from fr F0 have Ff: "fwds st F = None" by (simp add: alloc_fresh_def F_def)
    have cnt: "in_flight st' X = (if X = S then in_flight st S + 1 else in_flight st X)" for X
      using in_flight_add[OF Ff, of "\<lparr>conn = S, P = Request\<rparr>" X]
            in_flight_fwds[of st' "st\<lparr>fwds := (fwds st)(F \<mapsto> \<lparr>conn = S, P = Request\<rparr>)\<rparr>" X] fw
      by auto
    from fi have z: "fwds st 0 = None" by (simp add: finv_def)
    from fi p have n: "unat n = in_flight st S" unfolding finv_def by blast
    from in_flight_bound[OF z Ff F0, of S] n have "unat n < 2 ^ 64 - 1" by simp
    then have n1: "unat (n + 1) = in_flight st S + 1" using n by (simp add: unat_inc)
    have a: "fwds st' 0 = None" using z fw F0 by auto
    have b: "pmap st' (conn f') \<noteq> None" if "fwds st' F' = Some f'" for F' f'
    proof (cases "F' = F")
      case True
      with that fw have "conn f' = S" by auto
      with p' show ?thesis by simp
    next
      case False
      with that fw have "fwds st F' = Some f'" by auto
      with fi have "pmap st (conn f') \<noteq> None" unfolding finv_def by blast
      with p' show ?thesis by auto
    qed
    have c': "unat m = in_flight st' X" if "pmap st' X = Some (s', rd', m)" for X s' rd' m
    proof (cases "X = S")
      case True
      with that p' have "m = n + 1" by auto
      with True n1 cnt[of S] show ?thesis by simp
    next
      case False
      with that p' have "pmap st X = Some (s', rd', m)" by auto
      with fi have "unat m = in_flight st X" unfolding finv_def by blast
      with False cnt[of X] show ?thesis by simp
    qed
    from a b c' show ?thesis unfolding finv_def by blast
  qed
  with l' show ?thesis by (simp add: inv3_def)
qed

lemma gotconn_inv3:
  assumes i: "inv3 st" and f: "alloc_fresh e st"
    and c: "callback_gotconn e i' s st = Inr (0, st')"
  shows "inv3 st'"
proof -
  from i have l: "linv st" and fi: "finv st" by (simp_all add: inv3_def)
  from f have fr: "malloc_S e = 0 \<or> conns st (malloc_S e) = None"
    by (simp add: alloc_fresh_def)
  define S where "S = malloc_S e"
  from gotconn_spec[OF l fr c] have l': "linv st'" and fw: "fwds st' = fwds st"
    and S0: "S \<noteq> 0" and p': "pmap st' = (pmap st)(S \<mapsto> (s, True, 0))"
    by (auto simp: S_def)
  from fr S0 have pS: "pmap st S = None" by (simp add: S_def pmap_None)
  have "\<forall>F f. fwds st F = Some f \<longrightarrow> conn f \<noteq> S"
  proof (intro allI impI)
    fix F f assume "fwds st F = Some f"
    with fi have "pmap st (conn f) \<noteq> None" unfolding finv_def by blast
    with pS show "conn f \<noteq> S" by auto
  qed
  then have z: "in_flight st S = 0" by (simp add: in_flight_zero)
  have cnt: "in_flight st' X = in_flight st X" for X
    using in_flight_fwds[OF fw] .
  have a: "fwds st' 0 = None" using fi fw by (simp add: finv_def)
  have b: "pmap st' (conn f') \<noteq> None" if "fwds st' F' = Some f'" for F' f'
  proof -
    from that fw have "fwds st F' = Some f'" by simp
    with fi have "pmap st (conn f') \<noteq> None" unfolding finv_def by blast
    with p' show ?thesis by auto
  qed
  have c': "unat m = in_flight st' X" if "pmap st' X = Some (s', rd', m)" for X s' rd' m
  proof (cases "X = S")
    case True
    with that p' have "m = 0" by auto
    with True z cnt[of S] show ?thesis by simp
  next
    case False
    with that p' have "pmap st X = Some (s', rd', m)" by auto
    with fi have "unat m = in_flight st X" unfolding finv_def by blast
    with cnt[of X] show ?thesis by simp
  qed
  from a b c' have "finv st'" unfolding finv_def by blast
  with l' show ?thesis by (simp add: inv3_def)
qed

lemma writresponse_inv3:
  assumes "inv3 st" "callback_writresponse e F w st = Inr (0, st')"
  shows "inv3 st'"
proof -
  from assms(2) obtain f where f: "fwds st F = Some f" and
    r: "reqdone e (conn f) (st\<lparr>fwds := (fwds st)(F := None)\<rparr>) = Inr (0, st')"
    by (rule writresponse_Inr0)
  from assms(1) f r show ?thesis by (rule free_reqdone_inv3)
qed

lemma gotresponse_inv3:
  assumes i: "inv3 st" and c: "callback_gotresponse e F buf st = Some (Inr (0, st'))"
  shows "inv3 st'"
proof -
  from c obtain f where f: "fwds st F = Some f" and
    x: "if buf then conns st (conn f) \<noteq> None \<and> wire_writepacket_ok e \<and>
                 st' = st\<lparr>fwds := (fwds st)(F \<mapsto> f\<lparr>P := Response\<rparr>)\<rparr>
     else (\<exists>st2. reqdone e (conn f) (st\<lparr>fwds := (fwds st)(F := None)\<rparr>) = Inr (0, st2) \<and>
             conns st2 (conn f) \<noteq> None \<and>
             stop_reading e (conn f) ((accept_stop st2)\<lparr>failed := True\<rparr>) =
               Some (Inr (0, st')))"
    by (rule gotresponse_Inr0)
  from i have l: "linv st" and fi: "finv st" by (simp_all add: inv3_def)
  show ?thesis
  proof (cases buf)
    case True
    with x have st': "st' = st\<lparr>fwds := (fwds st)(F \<mapsto> f\<lparr>P := Response\<rparr>)\<rparr>" by simp
    from fi f have F0: "F \<noteq> 0" by (auto simp: finv_def)
    have cnt: "in_flight st' X = in_flight st X" for X
      unfolding st' by (rule in_flight_upd[OF f]) simp
    have "finv st'"
      unfolding finv_def
    proof (intro conjI allI impI)
      show "fwds st' 0 = None" using fi F0 by (simp add: st' finv_def)
    next
      fix F' f' assume "fwds st' F' = Some f'"
      then obtain f'' where "fwds st F' = Some f''" "conn f'' = conn f'"
        using f by (auto simp: st' split: if_splits)
      moreover from fi have "\<And>F f. fwds st F = Some f \<Longrightarrow> pmap st (conn f) \<noteq> None"
        unfolding finv_def by blast
      ultimately have "pmap st (conn f') \<noteq> None" by metis
      then show "pmap st' (conn f') \<noteq> None" by (simp add: st')
    next
      fix X s' rd' m assume "pmap st' X = Some (s', rd', m)"
      then have "pmap st X = Some (s', rd', m)" by (simp add: st')
      with fi have "unat m = in_flight st X" unfolding finv_def by blast
      with cnt[of X] show "unat m = in_flight st' X" by simp
    qed
    with l show ?thesis by (simp add: inv3_def st')
  next
    case False
    with x obtain st2 where
      r: "reqdone e (conn f) (st\<lparr>fwds := (fwds st)(F := None)\<rparr>) = Inr (0, st2)"
      and s: "stop_reading e (conn f) ((accept_stop st2)\<lparr>failed := True\<rparr>) =
               Some (Inr (0, st'))"
      by auto
    from free_reqdone_inv3[OF i f r] have "inv3 st2" .
    then have i3: "inv3 ((accept_stop st2)\<lparr>failed := True\<rparr>)"
      using linv_only_listen[OF accept_stop_only_listen, of st2]
            finv_only_listen[OF accept_stop_only_listen, of st2]
      by (simp add: inv3_def)
    show ?thesis
    proof (rule stop_reading_preserves[where I = inv3, OF _ s])
      fix S st st'
      assume "inv3 st" "readreq_cancel e S st = Inr (0, st')"
      then show "inv3 st'" by (rule readreq_cancel_inv3)
    next
      show "inv3 ((accept_stop st2)\<lparr>failed := True\<rparr>)" by (rule i3)
    qed
  qed
qed

lemma init_inv3:
  assumes "dispatch_init e socks maxconn = Some st"
  shows "inv3 st"
proof -
  define st0 where "st0 = \<lparr>sock_listen = map (\<lambda>s. \<lparr>L_s = s, accept_cookie = False\<rparr>) socks,
                  sock_active = 0, nsock_active = 0, nsock_active_max = maxconn,
                  failed = False, conns = Map.empty, fwds = Map.empty\<rparr>"
  from assms obtain rc where a: "accept_start e st0 = (rc, st)"
    by (auto simp: dispatch_init_def st0_def Let_def split: if_splits prod.splits)
  from init_inv1[OF assms] have l: "linv st" by (simp add: inv1_def)
  have "finv st0" by (simp add: finv_def st0_def pmap_def)
  with finv_only_listen[OF accept_start_only_listen[OF a]] l show ?thesis
    by (simp add: inv3_def)
qed

lemma reachable_inv3: "reachable st \<Longrightarrow> inv3 st"
proof (induction rule: reachable.induct)
  case (init e socks maxconn st)
  then show ?case by (rule init_inv3)
next
  case (step st ev e st')
  show ?case
  proof (cases ev)
    case (GotConn i s)
    with step show ?thesis by (auto intro: gotconn_inv3)
  next
    case (GotRequest S pkt)
    with step show ?thesis by (auto intro: gotrequest_inv3)
  next
    case (GotResponse F buf)
    with step show ?thesis by (auto intro: gotresponse_inv3)
  next
    case (WritResponse F w)
    with step show ?thesis by (auto intro: writresponse_inv3)
  qed
qed


subsection \<open>Assertions\<close>

text \<open>
  A fault \<open>AssertFail\<close> can only come from the assertion of \<open>readreq\<close> or from the two
  assertions of \<open>dropconn\<close>.  Every call of these functions is made in a state in which
  the asserted condition holds.
\<close>

lemma set_next_fault: "set_next X v st = Inl f \<Longrightarrow> f = BadPointer"
  by (auto simp: set_next_def split: option.splits)

lemma set_prev_fault: "set_prev X v st = Inl f \<Longrightarrow> f = BadPointer"
  by (auto simp: set_prev_def split: option.splits)

lemma detach_fault: "detach r st = Inl f \<Longrightarrow> f = BadPointer"
  by (auto simp: detach_def split: sum.splits if_splits dest: set_next_fault set_prev_fault)

lemma link_head_fault: "link_head S st = Inl f \<Longrightarrow> f = BadPointer"
  by (auto simp: link_head_def split: sum.splits if_splits dest: set_next_fault set_prev_fault)

lemma dropconn_assert:
  assumes "dropconn e S st = Inl AssertFail"
  shows "\<exists>r. conns st S = Some r \<and> (read_cookie r \<or> nrequests r \<noteq> 0)"
proof (cases "conns st S")
  case None
  with assms show ?thesis by (simp add: dropconn_def)
next
  case (Some r)
  show ?thesis
  proof (rule ccontr)
    assume "\<not> ?thesis"
    with Some have ok: "\<not> read_cookie r" "nrequests r = 0" by auto
    show False
    proof (cases "detach r st")
      case (Inl f)
      with assms Some ok detach_fault[OF Inl] show False by (simp add: dropconn_def)
    next
      case (Inr st2)
      with assms Some ok show False by (simp add: dropconn_def split: prod.splits)
    qed
  qed
qed

lemma readreq_assert:
  "readreq e S st = Inl AssertFail \<Longrightarrow> \<exists>r. conns st S = Some r \<and> read_cookie r"
  by (auto simp: readreq_def split: option.splits if_splits)

lemma readreq_cancel_no_assert: "readreq_cancel e S st \<noteq> Inl AssertFail"
proof
  assume a: "readreq_cancel e S st = Inl AssertFail"
  then obtain r where r: "conns st S = Some r"
    by (auto simp: readreq_cancel_def split: option.splits)
  define st1 where "st1 = st\<lparr>conns := (conns st)(S \<mapsto> r\<lparr>read_cookie := False\<rparr>)\<rparr>"
  from a r have z: "nrequests r = 0"
    by (auto simp: readreq_cancel_def Let_def split: if_splits)
  with a r have "dropconn e S st1 = Inl AssertFail"
    by (cases "dropconn e S st1")
       (auto simp: readreq_cancel_def Let_def st1_def split: if_splits)
  from dropconn_assert[OF this] z show False by (simp add: st1_def)
qed

lemma reqdone_no_assert: "reqdone e S st \<noteq> Inl AssertFail"
proof
  assume a: "reqdone e S st = Inl AssertFail"
  then obtain r where r: "conns st S = Some r"
    by (auto simp: reqdone_def split: option.splits)
  define st1 where "st1 = st\<lparr>conns := (conns st)(S \<mapsto> r\<lparr>nrequests := nrequests r - 1\<rparr>)\<rparr>"
  from a r have z: "nrequests r - 1 = 0 \<and> \<not> read_cookie r"
    by (auto simp: reqdone_def Let_def split: if_splits)
  with a r have "dropconn e S st1 = Inl AssertFail"
    by (cases "dropconn e S st1")
       (auto simp: reqdone_def Let_def st1_def split: if_splits)
  from dropconn_assert[OF this] z show False by (simp add: st1_def)
qed

lemma gotrequest_no_assert: "callback_gotrequest e S pkt st \<noteq> Inl AssertFail"
proof
  assume a: "callback_gotrequest e S pkt st = Inl AssertFail"
  then obtain r where r: "conns st S = Some r"
    by (auto simp: callback_gotrequest_def split: option.splits)
  define st1 where "st1 = st\<lparr>conns := (conns st)(S \<mapsto> r\<lparr>read_cookie := False\<rparr>)\<rparr>"
  show False
  proof (cases pkt)
    case False
    with a r have z: "nrequests r = 0"
      by (auto simp: callback_gotrequest_def Let_def split: if_splits)
    with a r False have "dropconn e S st1 = Inl AssertFail"
      by (cases "dropconn e S st1")
         (auto simp: callback_gotrequest_def Let_def st1_def split: if_splits)
    from dropconn_assert[OF this] z show False by (simp add: st1_def)
  next
    case True
    define st2 where "st2 = st1\<lparr>fwds := (fwds st1)(mpool_forwardee_malloc e \<mapsto> \<lparr>conn = S, P = Request\<rparr>),
                                   conns := (conns st1)(S \<mapsto>
                                     r\<lparr>read_cookie := False, nrequests := nrequests r + 1\<rparr>)\<rparr>"
    from a r True have "readreq e S st2 = Inl AssertFail"
      by (cases "readreq e S st2")
         (auto simp: callback_gotrequest_def Let_def st1_def st2_def split: if_splits)
    from readreq_assert[OF this] show False by (simp add: st2_def)
  qed
qed

lemma gotconn_no_assert: "callback_gotconn e i s st \<noteq> Inl AssertFail"
proof
  assume a: "callback_gotconn e i s st = Inl AssertFail"
  define S where "S = malloc_S e"
  define st2 where "st2 = accept_stop (st\<lparr>sock_listen :=
               (sock_listen st)[i := (sock_listen st ! i)\<lparr>accept_cookie := False\<rparr>]\<rparr>)"
  define st3 where "st3 = st2\<lparr>conns := (conns st2)(S \<mapsto>
                              \<lparr>next = 0, prev = 0, S_s = s, read_cookie = False,
                               nrequests = 0\<rparr>)\<rparr>"
  from a have i: "i < length (sock_listen st)" "s \<noteq> - 1"
    by (auto simp: callback_gotconn_def Let_def split: if_splits)
  with a have S0: "S \<noteq> 0" "fcntl_ok e" "netbuf_write_init_ok e" "netbuf_read_init_ok e"
    by (auto simp: callback_gotconn_def Let_def S_def split: if_splits)
  show False
  proof (cases "readreq e S st3")
    case (Inl f)
    with a i S0 have "f = AssertFail"
      by (simp add: callback_gotconn_def Let_def S_def st2_def st3_def)
    with Inl readreq_assert[of e S st3] show False by (simp add: st3_def)
  next
    case (Inr p)
    obtain rc st4 where p: "p = (rc, st4)" by (cases p)
    show False
    proof (cases "link_head S st4")
      case (Inl f)
      with a i S0 Inr p link_head_fault[OF Inl] show False
        by (simp add: callback_gotconn_def Let_def S_def st2_def st3_def split: if_splits)
    next
      case (Inr st7)
      with a i S0 \<open>readreq e S st3 = Inr p\<close> p show False
        by (simp add: callback_gotconn_def Let_def S_def st2_def st3_def
                 split: if_splits prod.splits)
    qed
  qed
qed

lemma stop_reading_no_assert:
  assumes "stop_reading e S st = Some y"
  shows "y \<noteq> Inl AssertFail"
proof (rule stop_reading.raw_induct[where P = "\<lambda>e S st y. y \<noteq> Inl AssertFail", OF _ assms])
  fix rec :: "env \<Rightarrow> addr \<Rightarrow> dispatch_state \<Rightarrow> (fault + int \<times> dispatch_state) option"
    and e S st y
  assume IH: "\<And>e S st y. rec e S st = Some y \<Longrightarrow> y \<noteq> Inl AssertFail"
    and eq: "(if S = 0 then Some (Inr (0, st))
      else case conns st S of None \<Rightarrow> Some (Inl BadPointer)
           | Some r \<Rightarrow>
               let S_next = next r
               in if read_cookie r
                  then case readreq_cancel e S st of Inl f \<Rightarrow> Some (Inl f)
                       | Inr (rc, st1) \<Rightarrow>
                           if rc \<noteq> 0 then Some (Inr (- 1, st1))
                           else rec e S_next st1
                  else rec e S_next st) = Some y"
  show "y \<noteq> Inl AssertFail"
  proof
    assume y: "y = Inl AssertFail"
    with eq have S0: "S \<noteq> 0" by (auto split: if_splits)
    with eq y obtain r where r: "conns st S = Some r" by (auto split: option.splits)
    show False
    proof (cases "read_cookie r")
      case False
      with eq S0 r have "rec e (next r) st = Some y" by (simp add: Let_def)
      from IH[OF this] y show False by simp
    next
      case True
      show False
      proof (cases "readreq_cancel e S st")
        case (Inl f)
        with eq S0 r True y readreq_cancel_no_assert[of e S st] show False
          by (simp add: Let_def)
      next
        case (Inr p)
        obtain rc st1 where p: "p = (rc, st1)" by (cases p)
        show False
        proof (cases "rc = 0")
          case True
          with eq S0 r \<open>read_cookie r\<close> Inr p have "rec e (next r) st1 = Some y"
            by (simp add: Let_def)
          from IH[OF this] y show False by simp
        next
          case False
          with eq S0 r \<open>read_cookie r\<close> Inr p y show False by (simp add: Let_def)
        qed
      qed
    qed
  qed
qed

lemma gotresponse_no_assert:
  assumes "callback_gotresponse e F buf st = Some y"
  shows "y \<noteq> Inl AssertFail"
proof
  assume y: "y = Inl AssertFail"
  from assms y obtain f where f: "fwds st F = Some f"
    by (auto simp: callback_gotresponse_def split: option.splits)
  show False
  proof (cases buf)
    case True
    with assms y f show False
      by (auto simp: callback_gotresponse_def Let_def split: option.splits if_splits)
  next
    case False
    define st1 where "st1 = st\<lparr>fwds := (fwds st)(F := None)\<rparr>"
    show False
    proof (cases "reqdone e (conn f) st1")
      case (Inl x)
      with assms y f False reqdone_no_assert[of e "conn f" st1] show False
        by (simp add: callback_gotresponse_def Let_def st1_def)
    next
      case (Inr p)
      obtain rc st2 where p: "p = (rc, st2)" by (cases p)
      show False
      proof (cases "rc = 0")
        case rc0: True
        show False
        proof (cases "conns st2 (conn f)")
          case None
          with assms y f False Inr p rc0 show False
            by (simp add: callback_gotresponse_def Let_def st1_def)
        next
          case (Some r)
          with assms f False Inr p rc0
          have "stop_reading e (conn f) ((accept_stop st2)\<lparr>failed := True\<rparr>) = Some y"
            by (simp add: callback_gotresponse_def Let_def st1_def)
          from stop_reading_no_assert[OF this] y show False by simp
        qed
      next
        case False
        with assms y f \<open>\<not> buf\<close> Inr p show False
          by (simp add: callback_gotresponse_def Let_def st1_def)
      qed
    qed
  qed
qed

lemma writresponse_no_assert: "callback_writresponse e F w st \<noteq> Inl AssertFail"
proof
  assume a: "callback_writresponse e F w st = Inl AssertFail"
  then obtain f where f: "fwds st F = Some f"
    by (auto simp: callback_writresponse_def split: option.splits)
  define st1 where "st1 = st\<lparr>fwds := (fwds st)(F := None)\<rparr>"
  from a f have "reqdone e (conn f) st1 = Inl AssertFail"
    by (cases "reqdone e (conn f) st1")
       (auto simp: callback_writresponse_def Let_def st1_def split: if_splits)
  with reqdone_no_assert show False by blast
qed

lemma callback_no_assert: "callback e ev st \<noteq> Some (Inl AssertFail)"
proof (cases ev)
  case (GotConn i s)
  then show ?thesis using gotconn_no_assert by simp
next
  case (GotRequest S pkt)
  then show ?thesis using gotrequest_no_assert by simp
next
  case (GotResponse F buf)
  then show ?thesis using gotresponse_no_assert[of e F buf st "Inl AssertFail"] by auto
next
  case (WritResponse F w)
  then show ?thesis using writresponse_no_assert by simp
qed


subsection \<open>Evaluating the example runs\<close>

lemmas eval_defs =
  dispatch_init_def accept_start_def accept_stop_def readreq_def set_next_def set_prev_def
  detach_def dropconn_def readreq_cancel_def reqdone_def link_head_def
  callback_gotconn_def callback_gotrequest_def callback_gotresponse_def
  callback_writresponse_def alloc_fresh_def all_ok_def Let_def
  listen_state_def client_def fun_eq_iff

lemma run_reachable: "reachable st \<Longrightarrow> run es st = Some st' \<Longrightarrow> reachable st'"
proof (induction es arbitrary: st)
  case Nil
  then show ?case by simp
next
  case (Cons x es)
  obtain e ev where x: "x = (e, ev)" by (cases x)
  from Cons.prems(2) x have p: "pending st ev" "alloc_fresh e st"
    by (auto split: if_splits)
  with Cons.prems(2) x obtain st1 where c: "callback e ev st = Some (Inr (0, st1))"
    and r: "run es st1 = Some st'"
    by (auto split: option.splits sum.splits if_splits)
  from Cons.prems(1) p c have "reachable st1" by (rule reachable.step)
  then show ?case using r by (rule Cons.IH)
qed

lemma a_init_init: "dispatch_init (all_ok 0 0) [5] 1 = Some a_init"
  by (simp add: eval_defs a_init_def)

lemma a_conn_run: "run [(all_ok 1 0, GotConn 0 7)] a_init = Some a_conn"
  by (simp add: eval_defs a_init_def a_conn_def)

lemma a_req_run: "run [(all_ok 0 1, GotRequest 1 True)] a_conn = Some a_req"
  by (simp add: eval_defs a_conn_def a_req_def)

lemma a_failed_run: "run [(all_ok 0 0, GotResponse 1 False)] a_req = Some a_failed"
  by (simp add: eval_defs a_req_def a_failed_def stop_reading.simps)

lemma a_req2_run:
  "run [(all_ok 2 0, GotConn 0 8), (all_ok 0 2, GotRequest 2 True)] a_failed = Some a_req2"
  by (simp add: eval_defs a_failed_def a_req2_def)

lemma b_init_init: "dispatch_init (all_ok 0 0) [5] 5 = Some b_init"
  by (simp add: eval_defs b_init_def)

lemma b_two_run: "run [(all_ok 1 0, GotConn 0 7), (all_ok 2 0, GotConn 0 8)] b_init = Some b_two"
  by (simp add: eval_defs b_init_def b_two_def)

lemma b_req_run: "run [(all_ok 0 1, GotRequest 1 True)] b_two = Some b_req"
  by (simp add: eval_defs b_two_def b_req_def)

lemma b_failed_callback:
  "callback (all_ok 0 0) (GotResponse 1 False) b_req = Some (Inr (0, b_failed))"
  by (simp add: eval_defs b_req_def b_failed_def stop_reading.simps)

lemma c_init_init: "dispatch_init (all_ok 0 0) [5] 0 = Some c_init"
  by (simp add: eval_defs c_init_def)

lemma c_conn_run: "run [(all_ok 1 0, GotConn 0 7)] c_init = Some c_conn"
  by (simp add: eval_defs c_init_def c_conn_def)


lemma reachable_a_init: "reachable a_init"
  using a_init_init by (rule reachable.init)

lemma reachable_a_conn: "reachable a_conn"
  using reachable_a_init a_conn_run by (rule run_reachable)

lemma reachable_a_req: "reachable a_req"
  using reachable_a_conn a_req_run by (rule run_reachable)

lemma reachable_a_failed: "reachable a_failed"
  using reachable_a_req a_failed_run by (rule run_reachable)

lemma reachable_b_two: "reachable b_two"
  using reachable.init[OF b_init_init] b_two_run by (rule run_reachable)

lemma reachable_b_req: "reachable b_req"
  using reachable_b_two b_req_run by (rule run_reachable)

lemma reachable_c_conn: "reachable c_conn"
  using reachable.init[OF c_init_init] c_conn_run by (rule run_reachable)

lemma a_eof_run: "run [(all_ok 0 0, GotRequest 1 False)] a_req = Some a_eof"
  by (simp add: eval_defs a_req_def a_eof_def)


subsection \<open>The callbacks return\<close>

text \<open>
  The loop of \<open>callback_gotresponse\<close> follows the list of connections, which ends at the
  null pointer; so in a reachable state every callback returns (a value or a fault).
\<close>

lemma readreq_cancel_list:
  assumes cl: "conn_list st xs" and n: "unat (nsock_active st) = length xs"
    and c: "readreq_cancel e S st = Inr (rc, st')"
  shows "\<exists>xs'. (xs' = xs \<or> xs' = remove1 S xs) \<and> conn_list st' xs' \<and>
           unat (nsock_active st') = length xs'"
proof -
  from c obtain r where r: "conns st S = Some r"
    by (auto simp: readreq_cancel_def split: option.splits)
  define st1 where "st1 = st\<lparr>conns := (conns st)(S \<mapsto> r\<lparr>read_cookie := False\<rparr>)\<rparr>"
  have cl1: "conn_list st1 xs" unfolding st1_def
    by (rule conn_list_payload_upd[OF cl r]) simp_all
  have n1: "unat (nsock_active st1) = length xs" using n by (simp add: st1_def)
  show ?thesis
  proof (cases "nrequests r = 0")
    case True
    with c r obtain rc2 where d: "dropconn e S st1 = Inr (rc2, st')"
      by (auto simp: readreq_cancel_def st1_def Let_def split: sum.splits if_splits)
    from dropconn_spec[OF cl1 n1 d] show ?thesis by blast
  next
    case False
    with c r have "st' = st1" by (auto simp: readreq_cancel_def st1_def Let_def)
    with cl1 n1 show ?thesis by blast
  qed
qed

lemma stop_reading_returns_aux:
  "conn_list st (ys @ zs) \<Longrightarrow> unat (nsock_active st) = length (ys @ zs) \<Longrightarrow>
   stop_reading e (hd (zs @ [0])) st \<noteq> None"
proof (induction zs arbitrary: st ys)
  case Nil
  then show ?case by (simp add: stop_reading.simps)
next
  case (Cons z zs)
  from Cons.prems(1) have seg: "dseg (conns st) 0 (sock_active st) (ys @ z # zs) 0"
    and dist: "distinct (ys @ z # zs)"
    by (simp_all add: conn_list_def)
  from seg obtain r where z0: "z \<noteq> 0" and r: "conns st z = Some r"
    and segz: "dseg (conns st) z (next r) zs 0"
    by (auto simp: dseg_append split: option.splits)
  have nx: "next r = hd (zs @ [0])" using dseg_hd[OF segz] .
  show ?case
  proof (cases "read_cookie r")
    case False
    have "conn_list st ((ys @ [z]) @ zs)" "unat (nsock_active st) = length ((ys @ [z]) @ zs)"
      using Cons.prems by simp_all
    from Cons.IH[OF this] have "stop_reading e (next r) st \<noteq> None" by (simp add: nx)
    with z0 r False show ?thesis by (simp add: stop_reading.simps[of e z st] Let_def)
  next
    case True
    show ?thesis
    proof (cases "readreq_cancel e z st")
      case (Inl f)
      with z0 r True show ?thesis by (simp add: stop_reading.simps[of e z st] Let_def)
    next
      case (Inr p)
      obtain rc st1 where p: "p = (rc, st1)" by (cases p)
      show ?thesis
      proof (cases "rc = 0")
        case False
        with z0 r True Inr p show ?thesis
          by (simp add: stop_reading.simps[of e z st] Let_def)
      next
        case rc0: True
        from readreq_cancel_list[OF Cons.prems Inr[unfolded p]] obtain xs' where
          xs': "xs' = ys @ z # zs \<or> xs' = remove1 z (ys @ z # zs)"
          and cl1: "conn_list st1 xs'" and n1: "unat (nsock_active st1) = length xs'"
          by blast
        from dist have rem: "remove1 z (ys @ z # zs) = ys @ zs" by (simp add: remove1_append)
        have "stop_reading e (hd (zs @ [0])) st1 \<noteq> None"
        proof (cases "xs' = ys @ z # zs")
          case True
          with cl1 n1 have "conn_list st1 ((ys @ [z]) @ zs)"
            "unat (nsock_active st1) = length ((ys @ [z]) @ zs)" by simp_all
          then show ?thesis by (rule Cons.IH)
        next
          case False
          with xs' rem have "xs' = ys @ zs" by simp
          with cl1 n1 have "conn_list st1 (ys @ zs)"
            "unat (nsock_active st1) = length (ys @ zs)" by simp_all
          then show ?thesis by (rule Cons.IH)
        qed
        with z0 r True Inr p rc0 nx show ?thesis
          by (simp add: stop_reading.simps[of e z st] Let_def)
      qed
    qed
  qed
qed

lemma stop_reading_returns:
  assumes l: "linv st" and S: "conns st S \<noteq> None"
  shows "stop_reading e S st \<noteq> None"
proof -
  from l obtain xs where cl: "conn_list st xs" and n: "unat (nsock_active st) = length xs"
    by (auto simp: linv_def)
  from cl S have "S \<in> set xs" by (auto simp: conn_list_def)
  then obtain ys zs where xs: "xs = ys @ S # zs" by (auto simp: in_set_conv_decomp)
  from stop_reading_returns_aux[of st ys "S # zs" e] cl n xs show ?thesis by simp
qed

lemma callback_returns:
  assumes "reachable st"
  shows "callback e ev st \<noteq> None"
proof (cases ev)
  case (GotConn i s)
  then show ?thesis by simp
next
  case (GotRequest S pkt)
  then show ?thesis by simp
next
  case (WritResponse F w)
  then show ?thesis by simp
next
  case (GotResponse F buf)
  from reachable_inv1[OF assms] have l: "linv st" by (simp add: inv1_def)
  have "callback_gotresponse e F buf st \<noteq> None"
  proof (cases "fwds st F")
    case None
    then show ?thesis by (simp add: callback_gotresponse_def)
  next
    case (Some f)
    show ?thesis
    proof (cases buf)
      case True
      with Some show ?thesis
        by (simp add: callback_gotresponse_def Let_def split: option.splits)
    next
      case False
      define st1 where "st1 = st\<lparr>fwds := (fwds st)(F := None)\<rparr>"
      have l1: "linv st1" using l by (simp add: st1_def)
      show ?thesis
      proof (cases "reqdone e (conn f) st1")
        case (Inl x)
        with Some False show ?thesis by (simp add: callback_gotresponse_def Let_def st1_def)
      next
        case (Inr p)
        obtain rc st2 where p: "p = (rc, st2)" by (cases p)
        show ?thesis
        proof (cases "rc = 0")
          case nz: False
          with Some False Inr p show ?thesis
            by (simp add: callback_gotresponse_def Let_def st1_def)
        next
          case rc0: True
          from reqdone_spec[OF l1 Inr[unfolded p]] have l2: "linv st2" by simp
          show ?thesis
          proof (cases "conns st2 (conn f)")
            case None
            with Some False Inr p rc0 show ?thesis
              by (simp add: callback_gotresponse_def Let_def st1_def)
          next
            case S2: (Some r)
            define st4 where "st4 = (accept_stop st2)\<lparr>failed := True\<rparr>"
            have "linv st4" using l2 linv_only_listen[OF accept_stop_only_listen, of st2]
              by (simp add: st4_def)
            moreover have "conns st4 (conn f) \<noteq> None"
              using S2 by (simp add: st4_def accept_stop_def)
            ultimately have "stop_reading e (conn f) st4 \<noteq> None"
              by (rule stop_reading_returns)
            with Some False Inr p rc0 S2 show ?thesis
              by (simp add: callback_gotresponse_def Let_def st1_def st4_def)
          qed
        qed
      qed
    qed
  qed
  with GotResponse show ?thesis by simp
qed


subsection \<open>What holds in every reachable state\<close>

text \<open>
  For a dispatcher whose maximum is not 0, there are never more connections than the
  maximum, and an accept is in progress only while there is room for a connection.
\<close>

lemma nsock_active_le_max:
  assumes "reachable st" "nsock_active_max st \<noteq> 0"
  shows "nsock_active st \<le> nsock_active_max st"
  using reachable_inv2[OF assms(1)] assms(2) by (simp add: inv2_def ainv_def)

lemma accept_armed_only_below_max:
  assumes "reachable st" "nsock_active_max st \<noteq> 0" "list_ex accept_cookie (sock_listen st)"
  shows "nsock_active st < nsock_active_max st"
  using reachable_inv2[OF assms(1)] assms(2,3) by (simp add: inv2_def ainv_def)

text \<open>
  For such a dispatcher, as long as the request queue has not failed, the listeners
  accept exactly while there is room for a connection.
\<close>

lemma accepts_match_before_failure:
  assumes r: "reachable st" and m: "nsock_active_max st \<noteq> 0" and f: "\<not> failed st"
  shows "accepts_match st"
proof -
  from reachable_inv2[OF r] m have a: "ainv st" by (simp add: inv2_def)
  show ?thesis
  proof (cases "nsock_active st < nsock_active_max st")
    case True
    with a f have "list_all accept_cookie (sock_listen st)" by (simp add: ainv_def)
    with True f show ?thesis by (simp add: accepts_match_def list_all_iff)
  next
    case False
    with a have "\<not> list_ex accept_cookie (sock_listen st)" by (auto simp: ainv_def)
    with False show ?thesis by (simp add: accepts_match_def list_all_iff list_ex_iff)
  qed
qed

text \<open>
  Between callbacks that return 0, the \<open>nrequests\<close> field of every connection is the
  number of in-flight request records that refer to it, and every in-flight request
  record refers to an allocated connection.
\<close>

lemma nrequests_counts_in_flight:
  assumes "reachable st"
  shows "nreq_matches st S"
proof (cases "conns st S")
  case None
  then show ?thesis by (simp add: nreq_matches_def)
next
  case (Some r)
  then have "pmap st S = Some (S_s r, read_cookie r, nrequests r)" by (simp add: pmap_Some)
  with reachable_inv3[OF assms] have "unat (nrequests r) = in_flight st S"
    unfolding inv3_def finv_def by blast
  with Some show ?thesis by (simp add: nreq_matches_def)
qed

lemma forwardee_conn_allocated:
  assumes "reachable st" "fwds st F = Some f"
  shows "conns st (conn f) \<noteq> None"
proof -
  from reachable_inv3[OF assms(1)] assms(2) have "pmap st (conn f) \<noteq> None"
    unfolding inv3_def finv_def by blast
  then show ?thesis by (simp add: pmap_None)
qed

text \<open>
  The failure path of \<open>callback_gotresponse\<close> uses the connection after \<open>reqdone\<close>.  When
  the failed request was the last thing that kept the connection alive, \<open>reqdone\<close> has
  freed it, and \<open>S->dstate\<close> is read from freed memory.
\<close>

lemma failure_after_eof_reads_freed_connection:
  "reachable a_eof \<and> pending a_eof (GotResponse 1 False) \<and>
   callback (all_ok 0 0) (GotResponse 1 False) a_eof = Some (Inl BadPointer)"
proof -
  have "reachable a_eof" using reachable_a_req a_eof_run by (rule run_reachable)
  moreover have "pending a_eof (GotResponse 1 False)"
    by (simp add: a_eof_def listen_state_def)
  moreover have "callback (all_ok 0 0) (GotResponse 1 False) a_eof = Some (Inl BadPointer)"
    by (simp add: eval_defs a_eof_def)
  ultimately show ?thesis by blast
qed

subsection \<open>The number of connections\<close>

text \<open>
  C10.  In every state between callbacks, whatever the callbacks before it returned, the
  connections form a list from \<open>sock_active\<close> to the null pointer that holds every
  allocated connection record once, and \<open>nsock_active\<close> is the number of records in
  that list.  The two operations that change the list keep
  the two in step: a successful \<open>callback_gotconn\<close> puts the new record in front of the
  list and adds 1 to \<open>nsock_active\<close>; \<open>dropconn\<close> takes the record out of the list and
  subtracts 1.
\<close>

theorem nsock_active_is_list_length:
  "(reachable_any st \<longrightarrow>
      (\<exists>xs. conn_list st xs \<and> unat (nsock_active st) = length xs)) \<and>
   (conn_list st xs \<and> unat (nsock_active st) = length xs \<and> alloc_fresh e st \<and>
    callback_gotconn e i s st = Inr (0, st') \<longrightarrow>
      conn_list st' (malloc_S e # xs) \<and> nsock_active st' = nsock_active st + 1 \<and>
      unat (nsock_active st') = length xs + 1) \<and>
   (conn_list st xs \<and> unat (nsock_active st) = length xs \<and>
    dropconn e S st = Inr (rc, st') \<longrightarrow>
      S \<in> set xs \<and> conn_list st' (remove1 S xs) \<and> nsock_active st' = nsock_active st - 1 \<and>
      unat (nsock_active st') = length xs - 1)"
proof (intro conjI impI)
  assume "reachable_any st"
  then show "\<exists>xs. conn_list st xs \<and> unat (nsock_active st) = length xs"
    using reachable_any_linv[of st] by (simp add: linv_def)
next
  assume a: "conn_list st xs \<and> unat (nsock_active st) = length xs \<and> alloc_fresh e st \<and>
    callback_gotconn e i s st = Inr (0, st')"
  then have fr: "malloc_S e = 0 \<or> conns st (malloc_S e) = None"
    by (simp add: alloc_fresh_def)
  from a have cl: "conn_list st xs" and n: "unat (nsock_active st) = length xs"
    and c: "callback_gotconn e i s st = Inr (0, st')" by simp_all
  note gl = gotconn_list[OF cl n fr c]
  from gl show "conn_list st' (malloc_S e # xs)" by (rule conjunct1)
  from gl show "nsock_active st' = nsock_active st + 1" by blast
  from gl[THEN conjunct2, THEN conjunct1] show "unat (nsock_active st') = length xs + 1"
    by simp
next
  assume a: "conn_list st xs \<and> unat (nsock_active st) = length xs \<and>
    dropconn e S st = Inr (rc, st')"
  then have cl: "conn_list st xs" and n: "unat (nsock_active st) = length xs"
    and d: "dropconn e S st = Inr (rc, st')" by simp_all
  note ds = dropconn_spec[OF cl n d]
  from ds show Sin: "S \<in> set xs" by (rule conjunct1)
  from ds show "conn_list st' (remove1 S xs)" by blast
  from dropconn_config[OF d] show "nsock_active st' = nsock_active st - 1" by (rule conjunct2)
  from ds[THEN conjunct2, THEN conjunct2, THEN conjunct1] Sin
  show "unat (nsock_active st') = length xs - 1"
    by (simp add: length_remove1)
qed

theorem nsock_active_is_list_length_witness:
  "reachable_any b_two \<and> conn_list b_two [2, 1] \<and>
   unat (nsock_active b_two) = length [2, 1 :: addr] \<and>
   conn_list a_init [] \<and> unat (nsock_active a_init) = length ([] :: addr list) \<and>
   alloc_fresh (all_ok 1 0) a_init \<and>
   callback_gotconn (all_ok 1 0) 0 7 a_init = Inr (0, a_conn) \<and>
   conn_list a_conn [1] \<and> nsock_active a_conn = 1 \<and>
   conn_list idle_conn [1] \<and> unat (nsock_active idle_conn) = length [1 :: addr] \<and>
   dropconn (all_ok 0 0) 1 idle_conn = Inr (0, a_init)"
proof -
  have 1: "conn_list b_two [2, 1]"
    by (auto simp: conn_list_def b_two_def listen_state_def client_def)
  have 2: "unat (nsock_active b_two) = length [2, 1 :: addr]"
    by (simp add: b_two_def listen_state_def)
  have 3: "conn_list a_init [] \<and> unat (nsock_active a_init) = length ([] :: addr list) \<and>
      alloc_fresh (all_ok 1 0) a_init"
    by (simp add: conn_list_def a_init_def listen_state_def alloc_fresh_def all_ok_def)
  have 4: "callback_gotconn (all_ok 1 0) 0 7 a_init = Inr (0, a_conn)"
    by (simp add: eval_defs a_init_def a_conn_def)
  have 5: "conn_list a_conn [1] \<and> nsock_active a_conn = 1"
    by (auto simp: conn_list_def a_conn_def listen_state_def client_def)
  have 6: "conn_list idle_conn [1] \<and> unat (nsock_active idle_conn) = length [1 :: addr]"
    by (auto simp: conn_list_def idle_conn_def listen_state_def client_def)
  have 7: "dropconn (all_ok 0 0) 1 idle_conn = Inr (0, a_init)"
    by (simp add: eval_defs idle_conn_def a_init_def)
  from reachable_reachable_any[OF reachable_b_two] 1 2 3 4 5 6 7
    nsock_active_is_list_length[of b_two "[]" "all_ok 1 0" 0 7 a_conn 1 0]
    nsock_active_is_list_length[of a_init "[]" "all_ok 1 0" 0 7 a_conn 1 0]
    nsock_active_is_list_length[of idle_conn "[1]" "all_ok 0 0" 0 7 a_init 1 0]
  show ?thesis by blast
qed

text \<open>
  C5.  In every state between callbacks in which \<open>dispatch_alive\<close> returns false,
  whatever the callbacks before it returned, the list of connections is empty, no
  connection record is allocated, \<open>nsock_active\<close> is 0 and the \<open>failed\<close> flag is set.
\<close>

theorem dead_dispatcher_is_empty:
  assumes "reachable_any st" and "\<not> dispatch_alive st"
  shows "sock_active st = 0 \<and> conns st = Map.empty \<and> nsock_active st = 0 \<and> failed st"
proof -
  from assms(2) have f: "failed st" and n: "nsock_active st = 0"
    by (auto simp: dispatch_alive_def word_greater_zero_iff)
  from reachable_any_linv[OF assms(1)] obtain xs where
    "conn_list st xs" "unat (nsock_active st) = length xs"
    by (auto simp: linv_def)
  with n have "conn_list st []" by simp
  then have "sock_active st = 0" "conns st = Map.empty"
    by (auto simp: conn_list_def)
  with f n show ?thesis by simp
qed

theorem dead_dispatcher_is_empty_witness:
  "reachable_any a_failed \<and> dispatch_alive a_failed = False \<and> sock_active a_failed = 0 \<and>
   conns a_failed = Map.empty \<and> nsock_active a_failed = 0 \<and> failed a_failed"
proof -
  have d: "\<not> dispatch_alive a_failed"
    by (simp add: dispatch_alive_def a_failed_def listen_state_def)
  have r: "reachable_any a_failed" using reachable_a_failed by (rule reachable_reachable_any)
  from dead_dispatcher_is_empty[OF r d] r d
  show ?thesis by simp
qed

subsection \<open>When a connection is dropped\<close>

lemma dropconn_assert_iff:
  "dropconn e S st = Inl AssertFail \<longleftrightarrow>
   (\<exists>r. conns st S = Some r \<and> (read_cookie r \<or> nrequests r \<noteq> 0))"
proof
  assume "dropconn e S st = Inl AssertFail"
  then show "\<exists>r. conns st S = Some r \<and> (read_cookie r \<or> nrequests r \<noteq> 0)"
    by (rule dropconn_assert)
next
  assume "\<exists>r. conns st S = Some r \<and> (read_cookie r \<or> nrequests r \<noteq> 0)"
  then show "dropconn e S st = Inl AssertFail"
    by (auto simp: dropconn_def)
qed

lemma dead_pmap: "dead st S \<longleftrightarrow> (\<exists>s. pmap st S = Some (s, False, 0))"
  by (cases "conns st S") (auto simp: dead_def pmap_def payload_def)

lemma dropconn_returns:
  assumes l: "linv st" and r: "conns st S = Some r"
    and i: "\<not> read_cookie r" "nrequests r = 0"
  shows "\<exists>rc st'. dropconn e S st = Inr (rc, st')"
proof -
  from l obtain xs where cl: "conn_list st xs" by (auto simp: linv_def)
  with r have "S \<in> set xs" by (auto simp: conn_list_def)
  then obtain ys zs where "xs = ys @ S # zs" by (auto dest: split_list)
  with cl have "conn_list st (ys @ S # zs)" by simp
  from detach_spec[OF this r] obtain st2 where d: "detach r st = Inr st2" by blast
  show ?thesis
    using r i d by (simp add: dropconn_def split: prod.splits)
qed

lemma dropconn_frees:
  assumes "dropconn e S st = Inr (rc, st')"
  shows "conns st' S = None"
  using assms by (rule dropconn_Inr) simp

lemma reqdone_drops:
  assumes l: "linv st" and r: "conns st S = Some r"
  shows "\<exists>rc st'. reqdone e S st = Inr (rc, st') \<and>
          (if nrequests r = 1 \<and> \<not> read_cookie r
           then conns st' S = None \<and> nsock_active st' = nsock_active st - 1
           else rc = 0 \<and>
                st' = st\<lparr>conns := (conns st)(S \<mapsto> r\<lparr>nrequests := nrequests r - 1\<rparr>)\<rparr>)"
proof -
  define r1 where "r1 = r\<lparr>nrequests := nrequests r - 1\<rparr>"
  define st1 where "st1 = st\<lparr>conns := (conns st)(S \<mapsto> r1)\<rparr>"
  have l1: "linv st1" unfolding st1_def by (rule linv_payload_upd[OF l r]) (simp_all add: r1_def)
  have r1: "conns st1 S = Some r1" by (simp add: st1_def)
  have eq: "nrequests r - 1 = 0 \<longleftrightarrow> nrequests r = 1" by auto
  show ?thesis
  proof (cases "nrequests r = 1 \<and> \<not> read_cookie r")
    case True
    then have "\<not> read_cookie r1" "nrequests r1 = 0" by (simp_all add: r1_def)
    from dropconn_returns[OF l1 r1 this] obtain rc2 st2 where
      d: "dropconn e S st1 = Inr (rc2, st2)" by blast
    have n: "nsock_active st2 = nsock_active st - 1"
      using dropconn_config[OF d] by (simp add: st1_def)
    have "reqdone e S st = Inr (if rc2 \<noteq> 0 then - 1 else 0, st2)"
      using r True d by (simp add: reqdone_def Let_def st1_def r1_def)
    with True dropconn_frees[OF d] n show ?thesis by simp
  next
    case False
    then have "reqdone e S st = Inr (0, st1)"
      using r eq by (auto simp: reqdone_def Let_def st1_def r1_def)
    with False show ?thesis by (simp add: st1_def r1_def)
  qed
qed

lemma readreq_cancel_drops:
  assumes l: "linv st" and r: "conns st S = Some r"
  shows "\<exists>rc st'. readreq_cancel e S st = Inr (rc, st') \<and>
          (if nrequests r = 0
           then conns st' S = None \<and> nsock_active st' = nsock_active st - 1
           else rc = 0 \<and> st' = st\<lparr>conns := (conns st)(S \<mapsto> r\<lparr>read_cookie := False\<rparr>)\<rparr>)"
proof -
  define r1 where "r1 = r\<lparr>read_cookie := False\<rparr>"
  define st1 where "st1 = st\<lparr>conns := (conns st)(S \<mapsto> r1)\<rparr>"
  have l1: "linv st1" unfolding st1_def by (rule linv_payload_upd[OF l r]) (simp_all add: r1_def)
  have r1: "conns st1 S = Some r1" by (simp add: st1_def)
  show ?thesis
  proof (cases "nrequests r = 0")
    case True
    then have "\<not> read_cookie r1" "nrequests r1 = 0" by (simp_all add: r1_def)
    from dropconn_returns[OF l1 r1 this] obtain rc2 st2 where
      d: "dropconn e S st1 = Inr (rc2, st2)" by blast
    have n: "nsock_active st2 = nsock_active st - 1"
      using dropconn_config[OF d] by (simp add: st1_def)
    have "readreq_cancel e S st = Inr (if rc2 \<noteq> 0 then - 1 else 0, st2)"
      using r True d by (simp add: readreq_cancel_def Let_def st1_def r1_def)
    with True dropconn_frees[OF d] n show ?thesis by simp
  next
    case False
    then have "readreq_cancel e S st = Inr (0, st1)"
      using r by (auto simp: readreq_cancel_def Let_def st1_def r1_def)
    with False show ?thesis by (simp add: st1_def r1_def)
  qed
qed

lemma gotrequest_eof_drops:
  assumes l: "linv st" and r: "conns st S = Some r"
  shows "\<exists>rc st'. callback_gotrequest e S False st = Inr (rc, st') \<and>
          (if nrequests r = 0
           then conns st' S = None \<and> nsock_active st' = nsock_active st - 1
           else rc = 0 \<and> st' = st\<lparr>conns := (conns st)(S \<mapsto> r\<lparr>read_cookie := False\<rparr>)\<rparr>)"
proof -
  define r1 where "r1 = r\<lparr>read_cookie := False\<rparr>"
  define st1 where "st1 = st\<lparr>conns := (conns st)(S \<mapsto> r1)\<rparr>"
  have l1: "linv st1" unfolding st1_def by (rule linv_payload_upd[OF l r]) (simp_all add: r1_def)
  have r1: "conns st1 S = Some r1" by (simp add: st1_def)
  show ?thesis
  proof (cases "nrequests r = 0")
    case True
    then have "\<not> read_cookie r1" "nrequests r1 = 0" by (simp_all add: r1_def)
    from dropconn_returns[OF l1 r1 this] obtain rc2 st2 where
      d: "dropconn e S st1 = Inr (rc2, st2)" by blast
    have n: "nsock_active st2 = nsock_active st - 1"
      using dropconn_config[OF d] by (simp add: st1_def)
    have "callback_gotrequest e S False st = Inr (if rc2 \<noteq> 0 then - 1 else 0, st2)"
      using r True d by (simp add: callback_gotrequest_def Let_def st1_def r1_def)
    with True dropconn_frees[OF d] n show ?thesis by simp
  next
    case False
    then have "callback_gotrequest e S False st = Inr (0, st1)"
      using r by (auto simp: callback_gotrequest_def Let_def st1_def r1_def)
    with False show ?thesis by (simp add: st1_def r1_def)
  qed
qed

text \<open>
  After a function that returns, a connection that is dead was dead before: a function
  that stops the read of a connection or takes its last request away drops it.  The one
  exception is \<open>callback_gotrequest\<close> on an error path.
\<close>

lemma reqdone_dead:
  assumes l: "linv st" and c: "reqdone e S st = Inr (rc, st')" and i: "dead st' T"
  shows "dead st T"
proof -
  from reqdone_spec[OF l c] obtain s rd n where p: "pmap st S = Some (s, rd, n)"
    and p': "pmap st' = (if n - 1 = 0 \<and> \<not> rd then (pmap st)(S := None)
                        else (pmap st)(S \<mapsto> (s, rd, n - 1)))" by blast
  from i obtain s' where "pmap st' T = Some (s', False, 0)" by (auto simp: dead_pmap)
  with p' have "pmap st T = Some (s', False, 0)"
    by (cases "T = S") (auto split: if_splits)
  then show ?thesis by (auto simp: dead_pmap)
qed

lemma readreq_cancel_dead:
  assumes l: "linv st" and c: "readreq_cancel e S st = Inr (rc, st')" and i: "dead st' T"
  shows "dead st T"
proof -
  from readreq_cancel_spec[OF l c] obtain s rd n where p: "pmap st S = Some (s, rd, n)"
    and p': "pmap st' = (if n = 0 then (pmap st)(S := None)
                        else (pmap st)(S \<mapsto> (s, False, n)))" by blast
  from i obtain s' where "pmap st' T = Some (s', False, 0)" by (auto simp: dead_pmap)
  with p' have "pmap st T = Some (s', False, 0)"
    by (cases "T = S") (auto split: if_splits)
  then show ?thesis by (auto simp: dead_pmap)
qed

lemma stop_reading_any_aux:
  assumes "stop_reading e S st = Some y"
  shows "(\<forall>S st rc st'. I st \<longrightarrow> readreq_cancel e S st = Inr (rc, st') \<longrightarrow> I st') \<longrightarrow>
         I st \<longrightarrow> (\<forall>rc st'. y = Inr (rc, st') \<longrightarrow> I st')"
proof (rule stop_reading.raw_induct
         [where P = "\<lambda>e S st y.
            (\<forall>S st rc st'. I st \<longrightarrow> readreq_cancel e S st = Inr (rc, st') \<longrightarrow> I st') \<longrightarrow>
            I st \<longrightarrow> (\<forall>rc st'. y = Inr (rc, st') \<longrightarrow> I st')", OF _ assms])
  fix rec :: "env \<Rightarrow> addr \<Rightarrow> dispatch_state \<Rightarrow> (fault + int \<times> dispatch_state) option"
    and e S st y
  assume IH: "\<And>e S st y. rec e S st = Some y \<Longrightarrow>
            (\<forall>S st rc st'. I st \<longrightarrow> readreq_cancel e S st = Inr (rc, st') \<longrightarrow> I st') \<longrightarrow>
            I st \<longrightarrow> (\<forall>rc st'. y = Inr (rc, st') \<longrightarrow> I st')"
    and eq: "(if S = 0 then Some (Inr (0, st))
      else case conns st S of None \<Rightarrow> Some (Inl BadPointer)
           | Some r \<Rightarrow>
               let S_next = next r
               in if read_cookie r
                  then case readreq_cancel e S st of Inl f \<Rightarrow> Some (Inl f)
                       | Inr (rc, st1) \<Rightarrow>
                           if rc \<noteq> 0 then Some (Inr (- 1, st1))
                           else rec e S_next st1
                  else rec e S_next st) = Some y"
  show "(\<forall>S st rc st'. I st \<longrightarrow> readreq_cancel e S st = Inr (rc, st') \<longrightarrow> I st') \<longrightarrow>
        I st \<longrightarrow> (\<forall>rc st'. y = Inr (rc, st') \<longrightarrow> I st')"
  proof (intro impI allI)
    fix rc st'
    assume step: "\<forall>S st rc st'. I st \<longrightarrow> readreq_cancel e S st = Inr (rc, st') \<longrightarrow> I st'"
      and Ist: "I st" and y: "y = Inr (rc, st')"
    show "I st'"
    proof (cases "S = 0")
      case True
      with eq y Ist show ?thesis by simp
    next
      case False
      with eq y obtain r where r: "conns st S = Some r"
        by (auto split: option.splits)
      show ?thesis
      proof (cases "read_cookie r")
        case nr: False
        with eq False r have "rec e (next r) st = Some y" by (simp add: Let_def)
        from IH[OF this] step y Ist show ?thesis by blast
      next
        case True
        with eq y False r obtain rc1 st1 where c1: "readreq_cancel e S st = Inr (rc1, st1)"
          by (cases "readreq_cancel e S st") (auto simp: Let_def)
        from step Ist c1 have I1: "I st1" by blast
        show ?thesis
        proof (cases "rc1 = 0")
          case rc0: True
          with eq False r True c1 have "rec e (next r) st1 = Some y" by (simp add: Let_def)
          from IH[OF this] step I1 y show ?thesis by blast
        next
          case rcn: False
          with eq False r True c1 y have "st' = st1" by (simp add: Let_def)
          with I1 show ?thesis by simp
        qed
      qed
    qed
  qed
qed

lemma stop_reading_dead:
  assumes l: "linv st" and s: "stop_reading e S st = Some (Inr (rc, st'))"
    and i: "dead st' T"
  shows "dead st T"
proof -
  define I where "I = (\<lambda>x. linv x \<and> (dead x T \<longrightarrow> dead st T))"
  have "\<forall>S x rc x'. I x \<longrightarrow> readreq_cancel e S x = Inr (rc, x') \<longrightarrow> I x'"
  proof (intro allI impI)
    fix S x rc x'
    assume x: "I x" and cc: "readreq_cancel e S x = Inr (rc, x')"
    from x have lx: "linv x" and ix: "dead x T \<longrightarrow> dead st T" by (simp_all add: I_def)
    from readreq_cancel_spec[OF lx cc] have "linv x'" by simp
    moreover have "dead x' T \<longrightarrow> dead st T"
      using readreq_cancel_dead[OF lx cc] ix by blast
    ultimately show "I x'" by (simp add: I_def)
  qed
  moreover have "I st" by (simp add: I_def l)
  ultimately have "I st'" using stop_reading_any_aux[OF s, of I] by blast
  with i show ?thesis by (simp add: I_def)
qed


lemma gotresponse_dead:
  assumes l: "linv st" and c: "callback_gotresponse e F buf st = Some (Inr (rc, st'))"
    and i: "dead st' T"
  shows "dead st T"
proof -
  from c obtain f where f: "fwds st F = Some f"
    by (auto simp: callback_gotresponse_def split: option.splits)
  show ?thesis
  proof (cases buf)
    case True
    with c f have "\<exists>x. st' = st\<lparr>fwds := x\<rparr>"
      by (auto simp: callback_gotresponse_def Let_def split: option.splits if_splits)
    then have "conns st' = conns st" by auto
    with i show ?thesis by (simp add: dead_def)
  next
    case False
    define st1 where "st1 = st\<lparr>fwds := (fwds st)(F := None)\<rparr>"
    have l1: "linv st1" using l by (simp add: st1_def)
    have i1: "dead st1 T = dead st T" by (simp add: st1_def dead_def)
    from c f False obtain rc2 st2 where r: "reqdone e (conn f) st1 = Inr (rc2, st2)"
      by (cases "reqdone e (conn f) st1")
         (auto simp: callback_gotresponse_def Let_def st1_def)
    from reqdone_spec[OF l1 r] have l2: "linv st2" by simp
    have i2: "dead st2 T \<longrightarrow> dead st T" using reqdone_dead[OF l1 r, of T] i1 by blast
    show ?thesis
    proof (cases "rc2 = 0")
      case nz: False
      with c f False r have "st' = st2"
        by (simp add: callback_gotresponse_def Let_def st1_def)
      with i have "dead st2 T" by simp
      with i2 show ?thesis by blast
    next
      case True
      with c f False r obtain r2 where "conns st2 (conn f) = Some r2"
        by (cases "conns st2 (conn f)")
           (auto simp: callback_gotresponse_def Let_def st1_def)
      with c f False r True
      have s: "stop_reading e (conn f) ((accept_stop st2)\<lparr>failed := True\<rparr>) =
                 Some (Inr (rc, st'))"
        by (simp add: callback_gotresponse_def Let_def st1_def)
      have l4: "linv ((accept_stop st2)\<lparr>failed := True\<rparr>)"
        using l2 linv_only_listen[OF accept_stop_only_listen, of st2] by simp
      from stop_reading_dead[OF l4 s i]
      have "dead ((accept_stop st2)\<lparr>failed := True\<rparr>) T" .
      then have "dead st2 T" by (simp add: dead_def accept_stop_def)
      with i2 show ?thesis by blast
    qed
  qed
qed

lemma writresponse_dead:
  assumes l: "linv st" and c: "callback_writresponse e F w st = Inr (rc, st')"
    and i: "dead st' T"
  shows "dead st T"
proof -
  from c obtain f where f: "fwds st F = Some f"
    by (auto simp: callback_writresponse_def split: option.splits)
  define st1 where "st1 = st\<lparr>fwds := (fwds st)(F := None)\<rparr>"
  have l1: "linv st1" using l by (simp add: st1_def)
  have i1: "dead st1 T = dead st T" by (simp add: st1_def dead_def)
  from c f obtain rc2 st2 where r: "reqdone e (conn f) st1 = Inr (rc2, st2)"
    by (cases "reqdone e (conn f) st1")
       (auto simp: callback_writresponse_def Let_def st1_def)
  with c f have "st' = st2"
    by (auto simp: callback_writresponse_def Let_def st1_def split: if_splits)
  with reqdone_dead[OF l1 r] i i1 show ?thesis by simp
qed

lemma gotrequest_dead:
  assumes l: "linv st" and c: "callback_gotrequest e S pkt st = Inr (rc, st')"
    and i: "dead st' T"
  shows "dead st T \<or>
         (T = S \<and> pkt \<and> rc = - 1 \<and>
          (\<exists>r. conns st S = Some r \<and>
             (if mpool_forwardee_malloc e = 0 then nrequests r = 0 else nrequests r = - 1)))"
proof -
  from c obtain r where r: "conns st S = Some r"
    by (auto simp: callback_gotrequest_def split: option.splits)
  define st1 where "st1 = st\<lparr>conns := (conns st)(S \<mapsto> r\<lparr>read_cookie := False\<rparr>)\<rparr>"
  have l1: "linv st1" unfolding st1_def by (rule linv_payload_upd[OF l r]) simp_all
  have other: "T \<noteq> S \<Longrightarrow> conns x = (conns st)(S \<mapsto> y) \<Longrightarrow> dead x T = dead st T" for x y
    by (simp add: dead_def)
  show ?thesis
  proof (cases pkt)
    case False
    show ?thesis
    proof (cases "nrequests r = 0")
      case True
      with c r False obtain rc2 where d: "dropconn e S st1 = Inr (rc2, st')"
        by (auto simp: callback_gotrequest_def st1_def Let_def split: sum.splits if_splits)
      from dropconn_pmap[OF l1 d] have p: "pmap st' = (pmap st1)(S := None)" by simp
      from i obtain s' where "pmap st' T = Some (s', False, 0)" by (auto simp: dead_pmap)
      with p have "T \<noteq> S" "pmap st1 T = Some (s', False, 0)" by (auto split: if_splits)
      then have "dead st T" using other[of st1] by (auto simp: dead_pmap st1_def)
      then show ?thesis by simp
    next
      case nz: False
      with c r False have e: "st' = st1" by (auto simp: callback_gotrequest_def st1_def Let_def)
      with i nz have "T \<noteq> S" by (auto simp: dead_def st1_def)
      with i e other[of st1] show ?thesis by (simp add: st1_def)
    qed
  next
    case True
    define F where "F = mpool_forwardee_malloc e"
    define r2 where "r2 = r\<lparr>read_cookie := False, nrequests := nrequests r + 1\<rparr>"
    define st2 where "st2 = st1\<lparr>fwds := (fwds st1)(F \<mapsto> \<lparr>conn = S, P = Request\<rparr>),
                                   conns := (conns st1)(S \<mapsto> r2)\<rparr>"
    have c2: "conns st2 = (conns st)(S \<mapsto> r2)" by (simp add: st2_def st1_def)
    have r2: "conns st2 S = Some r2" by (simp add: st2_def)
    have wrap: "nrequests r + 1 = 0 \<longleftrightarrow> nrequests r = - 1"
      by (metis add.commute add_eq_0_iff)
    have "\<exists>b n. conns st' = (conns st)(S \<mapsto> r\<lparr>read_cookie := b, nrequests := n\<rparr>) \<and>
                  (n = nrequests r \<and> F = 0 \<and> rc = - 1 \<or>
                   n = nrequests r + 1 \<and> F \<noteq> 0 \<and> (b \<or> rc = - 1))"
    proof (cases "F = 0")
      case F0: True
      with c r \<open>pkt\<close> have "st' = st1" "rc = - 1"
        by (simp_all add: callback_gotrequest_def F_def st1_def Let_def)
      with F0 show ?thesis
        by (intro exI[of _ False] exI[of _ "nrequests r"]) (simp add: st1_def)
    next
      case Fn: False
      show ?thesis
      proof (cases "wire_requestqueue_add_ok e")
        case False
        with c r \<open>pkt\<close> Fn have "st' = st2\<lparr>fwds := (fwds st2)(F := None)\<rparr>" "rc = - 1"
          by (simp_all add: callback_gotrequest_def F_def st1_def st2_def r2_def Let_def)
        with Fn show ?thesis
          by (intro exI[of _ False] exI[of _ "nrequests r + 1"]) (simp add: c2 r2_def)
      next
        case True
        with c r \<open>pkt\<close> Fn obtain rc3 where rr: "readreq e S st2 = Inr (rc3, st')"
          and rc: "rc = (if rc3 \<noteq> 0 then - 1 else 0)"
          by (cases "readreq e S st2")
             (auto simp: callback_gotrequest_def F_def st1_def st2_def r2_def Let_def
                   split: if_splits)
        from rr have
          "st' = st2\<lparr>conns := (conns st2)(S \<mapsto> r2\<lparr>read_cookie := (rc3 = 0)\<rparr>)\<rparr>"
          using r2 by (auto elim!: readreq_Inr)
        with Fn rc show ?thesis
          by (intro exI[of _ "rc3 = 0"] exI[of _ "nrequests r + 1"])
             (auto simp: c2 r2_def)
      qed
    qed
    then obtain b n where s: "conns st' = (conns st)(S \<mapsto> r\<lparr>read_cookie := b, nrequests := n\<rparr>)"
      and k: "n = nrequests r \<and> F = 0 \<and> rc = - 1 \<or>
              n = nrequests r + 1 \<and> F \<noteq> 0 \<and> (b \<or> rc = - 1)" by blast
    show ?thesis
    proof (cases "T = S")
      case False
      with i other[OF False s] show ?thesis by simp
    next
      case eq: True
      with i s have bn: "\<not> b" "n = 0" by (simp_all add: dead_def)
      with k wrap have "rc = - 1" "if F = 0 then nrequests r = 0 else nrequests r = - 1"
        by auto
      with eq r \<open>pkt\<close> show ?thesis by (simp add: F_def)
    qed
  qed
qed

lemma gotconn_any:
  assumes l: "linv st" and fresh: "malloc_S e = 0 \<or> conns st (malloc_S e) = None"
    and c: "callback_gotconn e i s st = Inr (rc, st')"
  shows "pmap st' = pmap st \<or> pmap st' = (pmap st)(malloc_S e \<mapsto> (s, True, 0))"
proof (cases "rc = 0")
  case True
  with gotconn_spec[OF l fresh] c show ?thesis by simp
next
  case rcn: False
  define S where "S = malloc_S e"
  define st1 where "st1 = st\<lparr>sock_listen :=
               (sock_listen st)[i := (sock_listen st ! i)\<lparr>accept_cookie := False\<rparr>]\<rparr>"
  define st2 where "st2 = accept_stop st1"
  define new where "new = \<lparr>next = 0, prev = 0, S_s = s, read_cookie = False, nrequests = 0\<rparr>"
  define st3 where "st3 = st2\<lparr>conns := (conns st2)(S \<mapsto> new)\<rparr>"
  have ol1: "only_listen st st1" by (simp add: st1_def only_listen_def)
  have ol2: "only_listen st st2"
    by (simp add: st2_def st1_def accept_stop_def only_listen_def)
  from c have i: "i < length (sock_listen st)"
    by (auto simp: callback_gotconn_def split: if_splits)
  have p1: "pmap st1 = pmap st" using ol1 by (simp add: pmap_def only_listen_def)
  have p2: "pmap st2 = pmap st" using ol2 by (simp add: pmap_def only_listen_def)
  have freed: "pmap (x\<lparr>conns := (conns x)(S := None)\<rparr>) = pmap st"
    if "conns x = (conns st)(S \<mapsto> y)" "S \<noteq> 0" for x y
  proof -
    from fresh that(2) have "conns st S = None" by (simp add: S_def)
    then have "(conns x)(S := None) = conns st" using that(1) by (auto simp: fun_eq_iff)
    then show ?thesis by (simp add: pmap_def)
  qed
  show ?thesis
  proof (cases "s = - 1")
    case True
    with c i have "st' = st1" by (simp add: callback_gotconn_def st1_def Let_def)
    with p1 show ?thesis by simp
  next
    case s: False
    show ?thesis
    proof (cases "S = 0")
      case True
      with c i s have "st' = st2"
        by (simp add: callback_gotconn_def st1_def st2_def S_def Let_def)
      with p2 show ?thesis by simp
    next
      case S0: False
      have c3: "conns st3 = (conns st)(S \<mapsto> new)" "sock_active st3 = sock_active st"
        "nsock_active st3 = nsock_active st"
        using ol2 by (simp_all add: st3_def only_listen_def)
      show ?thesis
      proof (cases "fcntl_ok e \<and> netbuf_write_init_ok e \<and> netbuf_read_init_ok e")
        case False
        with c i s S0 have "st' = st3\<lparr>conns := (conns st3)(S := None)\<rparr>"
          by (auto simp: callback_gotconn_def st1_def st2_def st3_def new_def S_def Let_def
                   split: if_splits)
        with freed[OF c3(1) S0] show ?thesis by simp
      next
        case ok: True
        from c i s S0 ok obtain rc4 st4 where rr: "readreq e S st3 = Inr (rc4, st4)"
          by (cases "readreq e S st3")
             (auto simp: callback_gotconn_def Let_def S_def st1_def st2_def st3_def new_def)
        from rr have st4: "st4 = st3\<lparr>conns := (conns st3)(S \<mapsto> new\<lparr>read_cookie := (rc4 = 0)\<rparr>)\<rparr>"
          by (auto elim!: readreq_Inr simp: st3_def)
        have c4: "conns st4 = (conns st)(S \<mapsto> new\<lparr>read_cookie := (rc4 = 0)\<rparr>)"
          "sock_active st4 = sock_active st" "nsock_active st4 = nsock_active st"
          using c3 by (simp_all add: st4)
        show ?thesis
        proof (cases "rc4 = 0")
          case False
          with c i s S0 ok rr have "st' = st4\<lparr>conns := (conns st4)(S := None)\<rparr>"
            by (simp add: callback_gotconn_def Let_def S_def st1_def st2_def st3_def new_def)
          with freed[OF c4(1) S0] show ?thesis by simp
        next
          case rc40: True
          from c i s S0 ok rr rc40 obtain st7 where lh: "link_head S st4 = Inr st7"
            by (cases "link_head S st4")
               (auto simp: callback_gotconn_def Let_def S_def st1_def st2_def st3_def new_def)
          define st8 where "st8 = st7\<lparr>nsock_active := nsock_active st7 + 1\<rparr>"
          from c i s S0 ok rr rc40 lh rcn obtain rc9 where
            a: "accept_start e st8 = (rc9, st')"
            by (auto simp: callback_gotconn_def Let_def S_def st1_def st2_def st3_def new_def
                     st8_def split: if_splits prod.splits)
          from l obtain xs where cl: "conn_list st xs"
            by (auto simp: linv_def)
          from fresh S0 have Sf: "conns st S = None" by (simp add: S_def)
          with cl have Sx: "S \<notin> set xs" by (auto simp: conn_list_def)
          from cl have dist: "distinct xs" and seg: "dseg (conns st) 0 (sock_active st) xs 0"
            by (auto simp: conn_list_def)
          have seg4: "dseg (conns st4) 0 (sock_active st4) xs 0"
            using seg Sx by (simp add: c4 dseg_upd_notin)
          have S4: "conns st4 S = Some (new\<lparr>read_cookie := (rc4 = 0)\<rparr>)" by (simp add: c4)
          from link_head_spec[OF seg4 dist S4 Sx S0] lh obtain h' where
            st7: "st7 = st4\<lparr>sock_active := S, conns := h'\<rparr>"
            and pe: "heap_payload_eq (conns st4) h'"
            by (auto simp: new_def)
          have "pmap st8 = (pmap st)(S \<mapsto> (s, True, 0))"
            using pe rc40
            by (auto simp: pmap_def heap_payload_eq_def st8_def st7 c4 fun_eq_iff payload_def
                       new_def)
          moreover have "pmap st' = pmap st8"
            using accept_start_only_listen[OF a] by (simp add: pmap_def only_listen_def)
          ultimately show ?thesis by (simp add: S_def)
        qed
      qed
    qed
  qed
qed

lemma gotconn_dead:
  assumes l: "linv st" and fresh: "malloc_S e = 0 \<or> conns st (malloc_S e) = None"
    and c: "callback_gotconn e i s st = Inr (rc, st')" and i: "dead st' T"
  shows "dead st T"
proof -
  from i obtain s' where "pmap st' T = Some (s', False, 0)" by (auto simp: dead_pmap)
  with gotconn_any[OF l fresh c] have "pmap st T = Some (s', False, 0)"
    by (auto split: if_splits)
  then show ?thesis by (auto simp: dead_pmap)
qed

lemma callback_dead:
  assumes l: "linv st" and a: "alloc_fresh e st"
    and c: "callback e ev st = Some (Inr (rc, st'))" and i: "dead st' T"
  shows "dead st T \<or>
         (ev = GotRequest T True \<and> rc = - 1 \<and>
          (\<exists>r. conns st T = Some r \<and>
             (if mpool_forwardee_malloc e = 0 then nrequests r = 0 else nrequests r = - 1)))"
proof (cases ev)
  case (GotConn i s)
  with c a gotconn_dead[OF l _ _ i] show ?thesis by (auto simp: alloc_fresh_def)
next
  case (GotRequest S pkt)
  with c gotrequest_dead[OF l _ i, of e S pkt rc] show ?thesis by auto
next
  case (GotResponse F buf)
  with c gotresponse_dead[OF l _ i] show ?thesis by auto
next
  case (WritResponse F w)
  with c writresponse_dead[OF l _ i] show ?thesis by auto
qed

lemma conn_list_linv: "conn_list st xs \<Longrightarrow> unat (nsock_active st) = length xs \<Longrightarrow> linv st"
  unfolding linv_def by blast

text \<open>
  C8.  \<open>dropconn\<close> fails an assertion exactly when it is called for a connection that
  has a read in progress or owes a response, and it frees the connection otherwise; no
  callback, in any state, fails an assertion.  Each of the three callers drops the
  connection exactly when it is dead at that point: the read completion without a packet
  and \<open>readreq_cancel\<close> clear \<open>read_cookie\<close> and free the connection if \<open>nrequests\<close> is 0;
  \<open>reqdone\<close> decrements \<open>nrequests\<close> and frees the connection if the result is 0 and no
  read is in progress; otherwise each leaves the connection allocated and returns 0.
  After any callback, from any state between callbacks, a dead connection was dead before
  the callback, or it is the connection of a read completion with a packet that returned
  \<open>- 1\<close>: \<open>mpool_forwardee_malloc\<close> failed while \<open>nrequests\<close> was 0, or the increment of
  \<open>nrequests\<close> wrapped around to 0 and a later step failed.  After callbacks that all
  returned 0 no connection is dead.
\<close>

theorem dead_connection_dropped:
  "(dropconn e S st = Inl AssertFail \<longleftrightarrow>
      (\<exists>r. conns st S = Some r \<and> (read_cookie r \<or> nrequests r \<noteq> 0))) \<and>
   (dropconn e S st = Inr (rc, st') \<longrightarrow> dead st S \<and> conns st' S = None) \<and>
   callback e ev st \<noteq> Some (Inl AssertFail) \<and>
   (conn_list st xs \<and> unat (nsock_active st) = length xs \<and> conns st S = Some r \<longrightarrow>
      (\<exists>rc st'. callback_gotrequest e S False st = Inr (rc, st') \<and>
         (if nrequests r = 0
          then conns st' S = None \<and> nsock_active st' = nsock_active st - 1
          else rc = 0 \<and>
               st' = st\<lparr>conns := (conns st)(S \<mapsto> r\<lparr>read_cookie := False\<rparr>)\<rparr>)) \<and>
      (\<exists>rc st'. readreq_cancel e S st = Inr (rc, st') \<and>
         (if nrequests r = 0
          then conns st' S = None \<and> nsock_active st' = nsock_active st - 1
          else rc = 0 \<and>
               st' = st\<lparr>conns := (conns st)(S \<mapsto> r\<lparr>read_cookie := False\<rparr>)\<rparr>)) \<and>
      (\<exists>rc st'. reqdone e S st = Inr (rc, st') \<and>
         (if nrequests r = 1 \<and> \<not> read_cookie r
          then conns st' S = None \<and> nsock_active st' = nsock_active st - 1
          else rc = 0 \<and>
               st' = st\<lparr>conns := (conns st)(S \<mapsto> r\<lparr>nrequests := nrequests r - 1\<rparr>)\<rparr>))) \<and>
   (reachable_any st \<and> alloc_fresh e st \<and>
    callback e ev st = Some (Inr (rc, st')) \<and> dead st' S \<longrightarrow>
      dead st S \<or>
      (ev = GotRequest S True \<and> rc = - 1 \<and>
       (\<exists>r. conns st S = Some r \<and>
          (if mpool_forwardee_malloc e = 0 then nrequests r = 0 else nrequests r = - 1)))) \<and>
   (reachable st \<longrightarrow> \<not> dead st S)"
proof (intro conjI impI)
  show "dropconn e S st = Inl AssertFail \<longleftrightarrow>
      (\<exists>r. conns st S = Some r \<and> (read_cookie r \<or> nrequests r \<noteq> 0))"
    by (rule dropconn_assert_iff)
next
  assume d: "dropconn e S st = Inr (rc, st')"
  then show "dead st S" by (rule dropconn_Inr) (simp add: dead_def)
  from d show "conns st' S = None" by (rule dropconn_frees)
next
  show "callback e ev st \<noteq> Some (Inl AssertFail)" by (rule callback_no_assert)
next
  assume a: "conn_list st xs \<and> unat (nsock_active st) = length xs \<and> conns st S = Some r"
  then have l: "linv st" and r: "conns st S = Some r" by (auto intro: conn_list_linv)
  show "\<exists>rc st'. callback_gotrequest e S False st = Inr (rc, st') \<and>
         (if nrequests r = 0
          then conns st' S = None \<and> nsock_active st' = nsock_active st - 1
          else rc = 0 \<and>
               st' = st\<lparr>conns := (conns st)(S \<mapsto> r\<lparr>read_cookie := False\<rparr>)\<rparr>)"
    using l r by (rule gotrequest_eof_drops)
  show "\<exists>rc st'. readreq_cancel e S st = Inr (rc, st') \<and>
         (if nrequests r = 0
          then conns st' S = None \<and> nsock_active st' = nsock_active st - 1
          else rc = 0 \<and>
               st' = st\<lparr>conns := (conns st)(S \<mapsto> r\<lparr>read_cookie := False\<rparr>)\<rparr>)"
    using l r by (rule readreq_cancel_drops)
  show "\<exists>rc st'. reqdone e S st = Inr (rc, st') \<and>
         (if nrequests r = 1 \<and> \<not> read_cookie r
          then conns st' S = None \<and> nsock_active st' = nsock_active st - 1
          else rc = 0 \<and>
               st' = st\<lparr>conns := (conns st)(S \<mapsto> r\<lparr>nrequests := nrequests r - 1\<rparr>)\<rparr>)"
    using l r by (rule reqdone_drops)
next
  assume a: "reachable_any st \<and> alloc_fresh e st \<and>
    callback e ev st = Some (Inr (rc, st')) \<and> dead st' S"
  then have l: "linv st" by (simp add: reachable_any_linv)
  from a have f: "alloc_fresh e st" and c: "callback e ev st = Some (Inr (rc, st'))"
    and i: "dead st' S" by simp_all
  show "dead st S \<or>
      (ev = GotRequest S True \<and> rc = - 1 \<and>
       (\<exists>r. conns st S = Some r \<and>
          (if mpool_forwardee_malloc e = 0 then nrequests r = 0 else nrequests r = - 1)))"
    using l f c i by (rule callback_dead)
next
  assume "reachable st"
  then have "all_busy st" using reachable_inv1[of st] by (simp add: inv1_def)
  then show "\<not> dead st S"
    by (cases "conns st S") (auto simp: all_busy_def dead_def)
qed

text \<open>
  A connection is not dropped whenever it becomes dead: when \<open>mpool_forwardee_malloc\<close>
  fails for the first request of a connection, \<open>callback_gotrequest\<close> has cleared
  \<open>read_cookie\<close>, returns \<open>- 1\<close> and leaves the connection in the list.  No event is
  pending in the state reached, and \<open>dispatch_alive\<close> is true.
\<close>

theorem dead_connection_not_dropped:
  "reachable a_conn \<and> conns a_conn 1 = Some (client 0 0 7 True 0) \<and>
   pending a_conn (GotRequest 1 True) \<and> alloc_fresh (all_ok 0 0) a_conn \<and>
   callback (all_ok 0 0) (GotRequest 1 True) a_conn = Some (Inr (- 1, idle_conn)) \<and>
   reachable_any idle_conn \<and> conns idle_conn 1 = Some (client 0 0 7 False 0) \<and>
   dead idle_conn 1 \<and> (\<forall>ev. \<not> pending idle_conn ev) \<and> dispatch_alive idle_conn"
proof -
  have p: "pending a_conn (GotRequest 1 True)"
    by (simp add: a_conn_def listen_state_def client_def)
  have a: "alloc_fresh (all_ok 0 0) a_conn"
    by (simp add: alloc_fresh_def all_ok_def)
  have c: "callback (all_ok 0 0) (GotRequest 1 True) a_conn = Some (Inr (- 1, idle_conn))"
    by (simp add: eval_defs a_conn_def idle_conn_def)
  have r: "reachable_any idle_conn"
    using reachable_reachable_any[OF reachable_a_conn] p a c by (rule reachable_any.step_any)
  have 1: "conns a_conn 1 = Some (client 0 0 7 True 0)"
    by (simp add: a_conn_def listen_state_def)
  have 2: "conns idle_conn 1 = Some (client 0 0 7 False 0)"
    by (simp add: idle_conn_def listen_state_def)
  have 3: "dead idle_conn 1"
    by (simp add: dead_def idle_conn_def listen_state_def client_def)
  have 4: "\<not> pending idle_conn ev" for ev
    by (cases ev) (auto simp: idle_conn_def listen_state_def client_def split: if_splits)
  have 5: "dispatch_alive idle_conn"
    by (simp add: dispatch_alive_def idle_conn_def listen_state_def)
  from reachable_a_conn 1 p a c r 2 3 4 5 show ?thesis by blast
qed

theorem dead_connection_dropped_witness:
  "dropconn (all_ok 0 0) 1 a_conn = Inl AssertFail \<and>
   conns a_conn 1 = Some (client 0 0 7 True 0) \<and>
   dropconn (all_ok 0 0) 1 idle_conn = Inr (0, a_init) \<and> dead idle_conn 1 \<and>
   conns a_init 1 = None \<and>
   callback (all_ok 0 0) (GotRequest 1 False) a_conn = Some (Inr (0, a_init)) \<and>
   conn_list a_conn [1] \<and> unat (nsock_active a_conn) = length [1 :: addr] \<and>
   (\<exists>rc st'. callback_gotrequest (all_ok 0 0) 1 False a_conn = Inr (rc, st') \<and>
      conns st' 1 = None \<and> nsock_active st' = 0) \<and>
   (\<exists>rc st'. readreq_cancel (all_ok 0 0) 1 a_conn = Inr (rc, st') \<and>
      conns st' 1 = None \<and> nsock_active st' = 0) \<and>
   conn_list a_eof [1] \<and> unat (nsock_active a_eof) = length [1 :: addr] \<and>
   conns a_eof 1 = Some (client 0 0 7 False 1) \<and>
   (\<exists>rc st'. reqdone (all_ok 0 0) 1 a_eof = Inr (rc, st') \<and>
      conns st' 1 = None \<and> nsock_active st' = 0) \<and>
   conn_list a_req [1] \<and> unat (nsock_active a_req) = length [1 :: addr] \<and>
   conns a_req 1 = Some (client 0 0 7 True 1) \<and>
   reqdone (all_ok 0 0) 1 a_req = Inr (0, a_req\<lparr>conns := [1 \<mapsto> client 0 0 7 True 0]\<rparr>) \<and>
   readreq_cancel (all_ok 0 0) 1 a_req =
     Inr (0, a_req\<lparr>conns := [1 \<mapsto> client 0 0 7 False 1]\<rparr>) \<and>
   reachable_any a_conn \<and> pending a_conn (GotRequest 1 True) \<and>
   alloc_fresh (all_ok 0 0) a_conn \<and>
   callback (all_ok 0 0) (GotRequest 1 True) a_conn = Some (Inr (- 1, idle_conn)) \<and>
   mpool_forwardee_malloc (all_ok 0 0) = 0 \<and>
   reachable a_conn \<and> \<not> dead a_conn 1"
proof -
  note t1 = dead_connection_dropped
    [of "all_ok 0 0" 1 a_conn 0 a_init "GotRequest 1 False" "[1]" "client 0 0 7 True 0"]
  note t2 = dead_connection_dropped
    [of "all_ok 0 0" 1 idle_conn 0 a_init "GotRequest 1 False" "[1]" "client 0 0 7 False 0"]
  note t3 = dead_connection_dropped
    [of "all_ok 0 0" 1 a_eof 0 a_init "GotRequest 1 False" "[1]" "client 0 0 7 False 1"]
  note t4 = dead_connection_dropped
    [of "all_ok 0 0" 1 a_req 0 a_init "GotRequest 1 False" "[1]" "client 0 0 7 True 1"]
  note t5 = dead_connection_dropped
    [of "all_ok 0 0" 1 a_conn "- 1" idle_conn "GotRequest 1 True" "[1]" "client 0 0 7 True 0"]
  have c1: "conns a_conn 1 = Some (client 0 0 7 True 0)"
    by (simp add: a_conn_def listen_state_def)
  have l1: "conn_list a_conn [1]" "unat (nsock_active a_conn) = length [1 :: addr]"
    by (auto simp: conn_list_def a_conn_def listen_state_def client_def)
  have n1: "nsock_active a_conn - 1 = 0" by (simp add: a_conn_def listen_state_def)
  have a1: "dropconn (all_ok 0 0) 1 a_conn = Inl AssertFail"
    using t1 c1 by (simp add: client_def)
  have d2: "dropconn (all_ok 0 0) 1 idle_conn = Inr (0, a_init)"
    by (simp add: eval_defs idle_conn_def a_init_def)
  from t2 d2 have i2: "dead idle_conn 1" "conns a_init 1 = None" by simp_all
  have cb: "callback (all_ok 0 0) (GotRequest 1 False) a_conn = Some (Inr (0, a_init))"
    by (simp add: eval_defs a_conn_def a_init_def)
  from t1 l1 c1 n1 have
    g1: "\<exists>rc st'. callback_gotrequest (all_ok 0 0) 1 False a_conn = Inr (rc, st') \<and>
      conns st' 1 = None \<and> nsock_active st' = 0"
    and r1: "\<exists>rc st'. readreq_cancel (all_ok 0 0) 1 a_conn = Inr (rc, st') \<and>
      conns st' 1 = None \<and> nsock_active st' = 0"
    by (simp_all add: client_def)
  have c3: "conns a_eof 1 = Some (client 0 0 7 False 1)"
    by (simp add: a_eof_def listen_state_def)
  have l3: "conn_list a_eof [1]" "unat (nsock_active a_eof) = length [1 :: addr]"
    by (auto simp: conn_list_def a_eof_def listen_state_def client_def)
  have n3: "nsock_active a_eof - 1 = 0" by (simp add: a_eof_def listen_state_def)
  from t3 l3 c3 n3 have
    q3: "\<exists>rc st'. reqdone (all_ok 0 0) 1 a_eof = Inr (rc, st') \<and>
      conns st' 1 = None \<and> nsock_active st' = 0"
    by (simp add: client_def)
  have c4: "conns a_req 1 = Some (client 0 0 7 True 1)"
    by (simp add: a_req_def listen_state_def)
  have l4: "conn_list a_req [1]" "unat (nsock_active a_req) = length [1 :: addr]"
    by (auto simp: conn_list_def a_req_def listen_state_def client_def)
  have u4: "(conns a_req)(1 \<mapsto> x) = [1 \<mapsto> x]" for x
    by (auto simp: a_req_def listen_state_def fun_eq_iff)
  from t4 l4 c4 have
    q4: "reqdone (all_ok 0 0) 1 a_req = Inr (0, a_req\<lparr>conns := [1 \<mapsto> client 0 0 7 True 0]\<rparr>)"
    and r4: "readreq_cancel (all_ok 0 0) 1 a_req =
     Inr (0, a_req\<lparr>conns := [1 \<mapsto> client 0 0 7 False 1]\<rparr>)"
    by (auto simp: client_def u4)
  have ra: "reachable_any a_conn" using reachable_a_conn by (rule reachable_reachable_any)
  have p5: "pending a_conn (GotRequest 1 True)"
    by (simp add: a_conn_def listen_state_def client_def)
  have f5: "alloc_fresh (all_ok 0 0) a_conn"
    by (simp add: alloc_fresh_def all_ok_def)
  have c5: "callback (all_ok 0 0) (GotRequest 1 True) a_conn = Some (Inr (- 1, idle_conn))"
    by (simp add: eval_defs a_conn_def idle_conn_def)
  from t5 reachable_a_conn have ni: "\<not> dead a_conn 1" by blast
  from t5 ra p5 f5 c5 i2(1) ni have m: "mpool_forwardee_malloc (all_ok 0 0) = 0"
    using c1 by (auto simp: client_def split: if_splits)
  from a1 c1 d2 i2 cb l1 g1 r1 l3 c3 q3 l4 c4 q4 r4 ra p5 f5 c5 m reachable_a_conn ni
  show ?thesis by blast
qed

subsection \<open>After the request queue has failed\<close>

text \<open>
  C1.  The run: the dispatcher for at most one connection accepts a connection, reads a
  request, and the request queue fails the request.  \<open>callback_gotresponse\<close> stops the
  accepts and sets \<open>failed\<close>; it then cancels the read of the connection, and \<open>dropconn\<close>,
  finding the number of connections at the maximum, starts the accepts again.  In the
  state reached, \<open>failed\<close> is set and the listener has an accept in progress.
\<close>

theorem accept_armed_after_failure:
  "dispatch_init (all_ok 0 0) [5] 1 = Some a_init \<and>
   run [(all_ok 1 0, GotConn 0 7), (all_ok 0 1, GotRequest 1 True),
        (all_ok 0 0, GotResponse 1 False)] a_init = Some a_failed \<and>
   reachable a_failed \<and> failed a_failed \<and> list_all accept_cookie (sock_listen a_failed) \<and>
   sock_listen a_failed \<noteq> [] \<and> \<not> accepts_match a_failed"
proof -
  have "run [(all_ok 1 0, GotConn 0 7), (all_ok 0 1, GotRequest 1 True),
        (all_ok 0 0, GotResponse 1 False)] a_init = Some a_failed"
    by (simp add: eval_defs a_init_def a_failed_def stop_reading.simps)
  moreover have "failed a_failed \<and> list_all accept_cookie (sock_listen a_failed) \<and>
   sock_listen a_failed \<noteq> [] \<and> \<not> accepts_match a_failed"
    by (simp add: a_failed_def listen_state_def accepts_match_def)
  ultimately show ?thesis using a_init_init reachable_a_failed by blast
qed

text \<open>
  C2.  From that state, in which \<open>failed\<close> is set and no request is in flight, the accept
  completes, the new connection starts reading, and its first request is forwarded: an
  in-flight request record is allocated and the next read is started.
\<close>

theorem forwardee_created_after_failure:
  "reachable a_failed \<and> failed a_failed \<and> fwds a_failed = Map.empty \<and>
   pending a_failed (GotConn 0 8) \<and>
   run [(all_ok 2 0, GotConn 0 8), (all_ok 0 2, GotRequest 2 True)] a_failed = Some a_req2 \<and>
   failed a_req2 \<and> fwds a_req2 2 = Some \<lparr>conn = 2, P = Request\<rparr> \<and>
   conns a_req2 2 = Some (client 0 0 8 True 1) \<and> pending a_req2 (GotRequest 2 True)"
proof -
  have "failed a_failed \<and> fwds a_failed = Map.empty \<and> pending a_failed (GotConn 0 8)"
    by (simp add: a_failed_def listen_state_def)
  moreover have "failed a_req2 \<and> fwds a_req2 2 = Some \<lparr>conn = 2, P = Request\<rparr> \<and>
   conns a_req2 2 = Some (client 0 0 8 True 1) \<and> pending a_req2 (GotRequest 2 True)"
    by (simp add: a_req2_def listen_state_def client_def)
  ultimately show ?thesis using reachable_a_failed a_req2_run by blast
qed

text \<open>
  C3.  The list of connections is 2, 1 (the newer connection first) and the request
  queue fails a request of connection 1.  The loop of \<open>callback_gotresponse\<close> starts at
  connection 1 and follows \<open>next\<close>: the callback returns 0 with the read of connection 2
  still in progress.
\<close>

theorem earlier_reads_not_cancelled:
  "reachable b_req \<and> conn_list b_req [2, 1] \<and> fwds b_req 1 = Some \<lparr>conn = 1, P = Request\<rparr> \<and>
   callback (all_ok 0 0) (GotResponse 1 False) b_req = Some (Inr (0, b_failed)) \<and>
   failed b_failed \<and> conn_list b_failed [2] \<and>
   conns b_failed 2 = Some (client 0 0 8 True 0) \<and> pending b_failed (GotRequest 2 True)"
proof -
  have "conn_list b_req [2, 1]"
    by (auto simp: conn_list_def b_req_def listen_state_def client_def)
  moreover have "conn_list b_failed [2]"
    by (auto simp: conn_list_def b_failed_def listen_state_def client_def)
  moreover have "fwds b_req 1 = Some \<lparr>conn = 1, P = Request\<rparr>"
    by (simp add: b_req_def listen_state_def)
  moreover have "failed b_failed \<and> conns b_failed 2 = Some (client 0 0 8 True 0) \<and>
      pending b_failed (GotRequest 2 True)"
    by (simp add: b_failed_def listen_state_def client_def)
  ultimately show ?thesis using reachable_b_req b_failed_callback by blast
qed

subsection \<open>A dispatcher for no connection\<close>

text \<open>
  C6.  \<open>dispatch_init\<close> with \<open>maxconn = 0\<close> starts accepting, and the accept that
  completes adds a connection: \<open>nsock_active\<close> is 1 and \<open>nsock_active_max\<close> is 0.
\<close>

theorem zero_max_admits_one:
  "dispatch_init (all_ok 0 0) [5] 0 = Some c_init \<and>
   run [(all_ok 1 0, GotConn 0 7)] c_init = Some c_conn \<and> reachable c_conn \<and>
   nsock_active c_conn = 1 \<and> nsock_active_max c_conn = 0 \<and>
   \<not> nsock_active c_conn \<le> nsock_active_max c_conn"
proof -
  have "nsock_active c_conn = 1 \<and> nsock_active_max c_conn = 0 \<and>
   \<not> nsock_active c_conn \<le> nsock_active_max c_conn"
    by (simp add: c_conn_def listen_state_def)
  then show ?thesis using c_init_init c_conn_run reachable_c_conn by blast
qed

subsection \<open>When the request cannot be enqueued\<close>


subsection \<open>Liveness of the dispatcher\<close>

text \<open>
  C4.  \<open>dispatch_alive\<close> returns true if and only if the \<open>failed\<close> flag is unset or
  \<open>nsock_active\<close> is greater than 0.
\<close>

theorem dispatch_alive_iff: "dispatch_alive st \<longleftrightarrow> (\<not> failed st \<or> 0 < nsock_active st)"
  by (simp add: dispatch_alive_def)


theorem dispatch_alive_iff_witness:
  "dispatch_alive \<lparr>sock_listen = [], sock_active = 0, nsock_active = 0, nsock_active_max = 1,
                   failed = True, conns = Map.empty, fwds = Map.empty\<rparr> = False
   \<and> dispatch_alive \<lparr>sock_listen = [], sock_active = 0, nsock_active = 0,
                     nsock_active_max = 1, failed = False, conns = Map.empty,
                     fwds = Map.empty\<rparr> = True"
  using dispatch_alive_iff
          [of "\<lparr>sock_listen = [], sock_active = 0, nsock_active = 0, nsock_active_max = 1,
                failed = True, conns = Map.empty, fwds = Map.empty\<rparr>"]
        dispatch_alive_iff
          [of "\<lparr>sock_listen = [], sock_active = 0, nsock_active = 0, nsock_active_max = 1,
                failed = False, conns = Map.empty, fwds = Map.empty\<rparr>"]
  by simp

subsection \<open>The write callback\<close>

text \<open>
  C9.  \<open>callback_writresponse\<close> does the same whether its argument says that the write
  failed or not: both calls return the same value and the same state.  In particular
  the callback never changes the \<open>failed\<close> flag of the dispatcher.
\<close>

theorem writresponse_ignores_flag:
  "callback_writresponse e F True st = callback_writresponse e F False st \<and>
   (case callback_writresponse e F write_failed st of
      Inl f \<Rightarrow> True
    | Inr (rc, st') \<Rightarrow> failed st' = failed st)"
proof
  show "callback_writresponse e F True st = callback_writresponse e F False st"
    by (simp add: callback_writresponse_def)
  show "case callback_writresponse e F write_failed st of
      Inl f \<Rightarrow> True
    | Inr (rc, st') \<Rightarrow> failed st' = failed st"
  proof (cases "callback_writresponse e F write_failed st")
    case (Inl f)
    then show ?thesis by simp
  next
    case (Inr p)
    obtain rc st' where p: "p = (rc, st')" by (cases p)
    from Inr p obtain f where f: "fwds st F = Some f"
      by (auto simp: callback_writresponse_def split: option.splits)
    with Inr p obtain rc2 where "reqdone e (conn f) (st\<lparr>fwds := (fwds st)(F := None)\<rparr>) = Inr (rc2, st')"
      by (auto simp: callback_writresponse_def Let_def split: sum.splits if_splits)
    from reqdone_config[OF this] have "failed st' = failed st" by (simp add: same_config_def)
    with Inr p show ?thesis by simp
  qed
qed


end
